theory Spec2Isabelle
  imports Main "HOL-Library.Word" "HOL-Library.Signed_Division"
begin

unbundle bit_operations_syntax

section \<open>Data model\<close>

text \<open>
  The Go type \<^verbatim>\<open>BitArray\<close> is a struct of an \<^verbatim>\<open>int\<close> and a slice of \<^verbatim>\<open>uint8\<close>.
  The field \<^verbatim>\<open>size\<close> is called \<open>bsize\<close> here, since \<open>size\<close> is a constant of HOL.
  The least significant bit is at index 0: bit \<open>i\<close> lives in byte \<open>i / 8\<close> at
  position \<open>i % 8\<close>.
\<close>

type_synonym u8 = "8 word"

record BitArray =
  bsize :: int
  data :: "u8 list"

text \<open>
  A call either returns, or panics, or (in \<^verbatim>\<open>Parse\<close>) returns a Go \<^verbatim>\<open>error\<close>.
  \<open>Panic msg\<close> is an explicit \<^verbatim>\<open>panic(msg)\<close> of the package, \<open>RuntimePanic\<close> a panic
  of the Go runtime (index out of range, negative shift amount, division by zero, nil
  dereference), and \<open>Error msg\<close> a returned error value.
\<close>

datatype failure = Panic string | RuntimePanic | Error string

definition andThen :: "failure + 'a \<Rightarrow> ('a \<Rightarrow> failure + 'b) \<Rightarrow> failure + 'b" where
  "andThen m f = (case m of Inl e \<Rightarrow> Inl e | Inr x \<Rightarrow> f x)"

text \<open>
  Go's \<^verbatim>\<open>int\<close> has 64 bits, and its arithmetic wraps around silently. Arithmetic on
  indices that a loop has already bounded by the size of a vector cannot overflow and is
  written exactly; arithmetic on integers supplied by the caller (the shift amount, the
  bounds of a slice, the sum of two sizes) goes through \<open>wrap64\<close>. Division and remainder
  truncate towards zero (\<open>sdiv\<close>, \<open>smod\<close>).
\<close>

definition wrap64 :: "int \<Rightarrow> int" where
  "wrap64 x = (x + 2 ^ 63) mod 2 ^ 64 - 2 ^ 63"

definition int64 :: "int \<Rightarrow> bool" where
  "int64 x \<longleftrightarrow> - (2 ^ 63) \<le> x \<and> x < 2 ^ 63"

subsection \<open>Loops\<close>

text \<open>\<^verbatim>\<open>for i := lo; i < hi; i++ { body }\<close> on a state \<open>s\<close>; a panic or an early return
  in the body ends the loop.\<close>

function for_up :: "(int \<Rightarrow> 's \<Rightarrow> failure + 's) \<Rightarrow> int \<Rightarrow> int \<Rightarrow> 's \<Rightarrow> failure + 's" where
  "for_up body i hi s =
     (if i < hi then (case body i s of Inl e \<Rightarrow> Inl e | Inr s' \<Rightarrow> for_up body (i + 1) hi s')
      else Inr s)"
  by pat_completeness auto
termination
  by (relation "measure (\<lambda>(body, i, hi, s). nat (hi - i))") auto

declare for_up.simps [simp del]

text \<open>\<^verbatim>\<open>for i := hi; i >= lo; i-- { body }\<close>.\<close>

function for_down :: "(int \<Rightarrow> 's \<Rightarrow> failure + 's) \<Rightarrow> int \<Rightarrow> int \<Rightarrow> 's \<Rightarrow> failure + 's" where
  "for_down body i lo s =
     (if lo \<le> i then (case body i s of Inl e \<Rightarrow> Inl e | Inr s' \<Rightarrow> for_down body (i - 1) lo s')
      else Inr s)"
  by pat_completeness auto
termination
  by (relation "measure (\<lambda>(body, i, lo, s). nat (i + 1 - lo))") auto

declare for_down.simps [simp del]

text \<open>\<^verbatim>\<open>for _, x := range xs { body }\<close>.\<close>

fun for_range :: "('a \<Rightarrow> 's \<Rightarrow> failure + 's) \<Rightarrow> 'a list \<Rightarrow> 's \<Rightarrow> failure + 's" where
  "for_range body [] s = Inr s"
| "for_range body (x # xs) s =
     (case body x s of Inl e \<Rightarrow> Inl e | Inr s' \<Rightarrow> for_range body xs s')"

section \<open>Single-bit access\<close>

definition checkIdx :: "BitArray \<Rightarrow> int \<Rightarrow> failure + unit" where
  "checkIdx ba idx =
     (if idx < 0 \<or> bsize ba \<le> idx then Inl (Panic ''index out of range'') else Inr ())"

definition checkSize :: "BitArray \<Rightarrow> BitArray \<Rightarrow> failure + unit" where
  "checkSize ba other =
     (if bsize ba \<noteq> bsize other then Inl (Panic ''bit array sizes must be equal'')
      else Inr ())"

text \<open>The unexported accessors index the storage without a check of their own: the
  runtime panics when the byte index is outside the slice or the shift count is negative.\<close>

definition get :: "BitArray \<Rightarrow> int \<Rightarrow> failure + bool" where
  "get ba idx =
     (let n = idx sdiv 8; i = idx smod 8 in
      if n < 0 \<or> int (length (data ba)) \<le> n \<or> i < 0 then Inl RuntimePanic
      else Inr ((data ba ! nat n) AND push_bit (nat i) 1 \<noteq> 0))"

definition set_idx :: "BitArray \<Rightarrow> int \<Rightarrow> failure + BitArray" where
  "set_idx ba idx =
     (let n = idx sdiv 8; i = idx smod 8 in
      if n < 0 \<or> int (length (data ba)) \<le> n \<or> i < 0 then Inl RuntimePanic
      else Inr (ba\<lparr>data := (data ba)[nat n := (data ba ! nat n) OR push_bit (nat i) 1]\<rparr>))"

definition unset :: "BitArray \<Rightarrow> int \<Rightarrow> failure + BitArray" where
  "unset ba idx =
     (let n = idx sdiv 8; i = idx smod 8 in
      if n < 0 \<or> int (length (data ba)) \<le> n \<or> i < 0 then Inl RuntimePanic
      else Inr (ba\<lparr>data := (data ba)[nat n := (data ba ! nat n) AND NOT (push_bit (nat i) 1)]\<rparr>))"

definition Set :: "BitArray \<Rightarrow> int \<Rightarrow> failure + BitArray" where
  "Set ba idx = andThen (checkIdx ba idx) (\<lambda>_. set_idx ba idx)"

definition Unset :: "BitArray \<Rightarrow> int \<Rightarrow> failure + BitArray" where
  "Unset ba idx = andThen (checkIdx ba idx) (\<lambda>_. unset ba idx)"

definition Get :: "BitArray \<Rightarrow> int \<Rightarrow> failure + bool" where
  "Get ba idx = andThen (checkIdx ba idx) (\<lambda>_. get ba idx)"

text \<open>\<open>put ba i b\<close> is the recurring \<^verbatim>\<open>if b { ba.set(i) } else { ba.unset(i) }\<close>.\<close>

definition put :: "BitArray \<Rightarrow> int \<Rightarrow> bool \<Rightarrow> failure + BitArray" where
  "put ba i b = (if b then set_idx ba i else unset ba i)"

section \<open>Construction\<close>

definition New :: "int \<Rightarrow> int list \<Rightarrow> failure + BitArray" where
  "New sz idx =
     (if sz \<le> 0 then Inl (Panic ''size must be > 0'')
      else
        let n = sz sdiv 8; r = sz smod 8;
            n = (if 0 < r then n + 1 else n);
            ba = \<lparr>bsize = sz, data = replicate (nat n) 0\<rparr>
        in for_range (\<lambda>i ba. Set ba i) idx ba)"

text \<open>A string is a list of characters; \<^verbatim>\<open>strings.ReplaceAll(s, " ", "")\<close> drops the
  space characters, and every remaining character is one element of \<^verbatim>\<open>rs\<close>.\<close>

definition Parse :: "string \<Rightarrow> failure + BitArray" where
  "Parse s =
     (let rs = filter (\<lambda>c. c \<noteq> CHR '' '') s;
          rsLen = int (length rs)
      in andThen (New rsLen [])
           (for_up (\<lambda>i ba.
               if rs ! nat i = CHR ''1'' then set_idx ba (rsLen - 1 - i)
               else if rs ! nat i \<noteq> CHR ''0''
                 then Inl (Error (''unknown character: '' @ [rs ! nat i]))
               else Inr ba) 0 rsLen))"

definition Clone :: "BitArray \<Rightarrow> BitArray" where
  "Clone ba = \<lparr>bsize = bsize ba, data = take (length (data ba)) (data ba)\<rparr>"

section \<open>Slicing\<close>

text \<open>The loop of \<^verbatim>\<open>Slice\<close> carries the result and the running index \<^verbatim>\<open>idx\<close>.\<close>

definition Slice :: "BitArray \<Rightarrow> int \<Rightarrow> int \<Rightarrow> failure + BitArray" where
  "Slice ba start end =
     andThen (checkIdx ba start) (\<lambda>_.
     andThen (checkIdx ba (wrap64 (end - 1))) (\<lambda>_.
     andThen (New (wrap64 (end - start)) []) (\<lambda>result.
     andThen (for_up (\<lambda>i (result, idx).
                  andThen (get ba i) (\<lambda>b.
                  andThen (if b then set_idx result idx else Inr result) (\<lambda>result'.
                  Inr (result', idx + 1))))
                start end (result, 0))
       (\<lambda>(result, idx). Inr result))))"

section \<open>Whole-vector writes\<close>

text \<open>\<open>modify_byte ba i f\<close> is the statement \<^verbatim>\<open>ba.data[i] = f(ba.data[i])\<close>; the runtime
  panics when \<open>i\<close> is outside the slice.\<close>

definition modify_byte :: "BitArray \<Rightarrow> int \<Rightarrow> (u8 \<Rightarrow> u8) \<Rightarrow> failure + BitArray" where
  "modify_byte ba i f =
     (if i < 0 \<or> int (length (data ba)) \<le> i then Inl RuntimePanic
      else Inr (ba\<lparr>data := (data ba)[nat i := f (data ba ! nat i)]\<rparr>))"

definition Clear :: "BitArray \<Rightarrow> BitArray" where
  "Clear ba = ba\<lparr>data := map (\<lambda>_. 0) (data ba)\<rparr>"

definition SetAll :: "BitArray \<Rightarrow> failure + BitArray" where
  "SetAll ba =
     (let x = bsize ba smod 8; l = int (length (data ba)) - 1 in
      andThen (if x = 0 then modify_byte ba l (\<lambda>_. 255)
               else if x - 1 < 0 then Inl RuntimePanic
               else modify_byte ba l (\<lambda>_. push_bit (nat (x - 1)) 2 - 1))
        (for_up (\<lambda>i ba. modify_byte ba i (\<lambda>_. 255)) 0 l))"

section \<open>Bitwise algebra\<close>

text \<open>
  The binary operators write the receiver and read the argument, and both are pointers:
  \<^verbatim>\<open>v.Xor(v)\<close> is a legal call. They are modelled on a store of vectors, so that the
  receiver \<open>ba\<close> and the argument \<open>other\<close> may be the same cell. \<open>update ba f st\<close> runs a
  method \<open>f\<close> on the receiver cell; \<open>bytes_op f ba other i st\<close> is the statement
  \<^verbatim>\<open>ba.data[i] op= other.data[i]\<close>.
\<close>

type_synonym ref = nat
type_synonym store = "ref \<Rightarrow> BitArray"

definition update :: "ref \<Rightarrow> (BitArray \<Rightarrow> failure + BitArray) \<Rightarrow> store \<Rightarrow> failure + store" where
  "update ba f st = andThen (f (st ba)) (\<lambda>x. Inr (st(ba := x)))"

definition bytes_op :: "(u8 \<Rightarrow> u8 \<Rightarrow> u8) \<Rightarrow> ref \<Rightarrow> ref \<Rightarrow> int \<Rightarrow> store \<Rightarrow> failure + store" where
  "bytes_op f ba other i st =
     (if i < 0 \<or> int (length (data (st other))) \<le> i then Inl RuntimePanic
      else update ba (\<lambda>x. modify_byte x i (\<lambda>v. f v (data (st other) ! nat i))) st)"

definition And :: "ref \<Rightarrow> ref \<Rightarrow> store \<Rightarrow> failure + store" where
  "And ba other st =
     andThen (checkSize (st ba) (st other)) (\<lambda>_.
     andThen (for_up (bytes_op (AND) ba other) 0 (int (length (data (st ba))) - 1) st) (\<lambda>st.
     if bsize (st ba) smod 8 = 0
     then bytes_op (AND) ba other (int (length (data (st ba))) - 1) st
     else for_up (\<lambda>i st.
            andThen (get (st other) i) (\<lambda>b.
            if \<not> b then update ba (\<lambda>x. unset x i) st else Inr st))
          (bsize (st ba) sdiv 8 * 8) (bsize (st ba)) st))"





section \<open>Rotation and shift\<close>

definition moveBits :: "BitArray \<Rightarrow> int \<Rightarrow> failure + (BitArray \<times> int \<times> int)" where
  "moveBits ba n =
     (if n = 0 then Inr (ba, 0, 0)
      else if 0 < n then
        andThen (for_down (\<lambda>i ba. andThen (get ba (i - n)) (put ba i)) (bsize ba - 1) n ba)
          (\<lambda>ba. Inr (ba, 0, n))
      else
        let n = wrap64 (- n) in
        andThen (for_up (\<lambda>i ba. andThen (get ba (i + n)) (put ba i))
                   0 (wrap64 (bsize ba - n)) ba)
          (\<lambda>ba. Inr (ba, wrap64 (bsize ba - n), bsize ba)))"

text \<open>\<^verbatim>\<open>aux\<close> stays \<^verbatim>\<open>nil\<close> (\<open>None\<close>) when the reduced amount is 0; reading it would be a
  nil dereference. \<^verbatim>\<open>n % ba.size\<close> panics when the size is 0.\<close>

definition Rotate :: "BitArray \<Rightarrow> int \<Rightarrow> failure + BitArray" where
  "Rotate ba n =
     (if bsize ba = 0 then Inl RuntimePanic
      else
        let n = n smod bsize ba in
        andThen (if 0 < n then andThen (Slice ba (wrap64 (bsize ba - n)) (bsize ba)) (\<lambda>a. Inr (Some a))
                 else if n < 0 then andThen (Slice ba 0 (wrap64 (- n))) (\<lambda>a. Inr (Some a))
                 else Inr None) (\<lambda>aux.
        andThen (moveBits ba n) (\<lambda>(ba, start, end).
        for_up (\<lambda>i ba.
           case aux of
             None \<Rightarrow> Inl RuntimePanic
           | Some a \<Rightarrow> andThen (get a (i - start)) (put ba i))
          start end ba)))"

definition Shift :: "BitArray \<Rightarrow> int \<Rightarrow> failure + BitArray" where
  "Shift ba n =
     (if 0 < n \<and> bsize ba \<le> n \<or> n < 0 \<and> bsize ba \<le> wrap64 (- n) then Inr (Clear ba)
      else
        andThen (moveBits ba n) (\<lambda>(ba, start, end).
        for_up (\<lambda>i ba. unset ba i) start end ba))"

section \<open>Queries\<close>

text \<open>\<^verbatim>\<open>bits.OnesCount8\<close> of the Go library returns the number of one bits of a byte.\<close>

definition OnesCount8 :: "u8 \<Rightarrow> int" where
  "OnesCount8 x = int (length (filter (bit x) [0..<8]))"

definition Count :: "BitArray \<Rightarrow> int" where
  "Count ba = fold (\<lambda>x cnt. cnt + OnesCount8 x) (data ba) 0"

text \<open>
  \<^verbatim>\<open>fmt.Sprintf("%0*b", n, x)\<close> prints \<open>x\<close> in base 2 without leading zeros (\<open>FormatBits\<close>,
  one digit for 0) and pads it with zeros on the left to the width \<open>n\<close>; a negative
  width pads with spaces on the right instead. A number with more digits than the width
  is printed in full.
\<close>

fun FormatBits :: "nat \<Rightarrow> string" where
  "FormatBits x =
     (if x < 2 then [if x = 0 then CHR ''0'' else CHR ''1'']
      else FormatBits (x div 2) @ [if x mod 2 = 0 then CHR ''0'' else CHR ''1''])"

declare FormatBits.simps [simp del]

definition Sprintf_0b :: "int \<Rightarrow> u8 \<Rightarrow> string" where
  "Sprintf_0b n x =
     (let ds = FormatBits (unat x) in
      if 0 \<le> n then replicate (nat n - length ds) CHR ''0'' @ ds
      else ds @ replicate (nat (- n) - length ds) CHR '' '')"

definition String :: "BitArray \<Rightarrow> failure + string" where
  "String ba =
     (let baLen = int (length (data ba));
          n = bsize ba smod 8;
          n = (if n = 0 then 8 else n)
      in if baLen - 1 < 0 then Inl RuntimePanic
         else
           let s = Sprintf_0b n (data ba ! nat (baLen - 1)) in
           if 1 < baLen
           then for_down (\<lambda>i s. Inr (s @ Sprintf_0b 8 (data ba ! nat i))) (baLen - 2) 0 s
           else Inr s)"

section \<open>Concatenation\<close>

definition Concat :: "BitArray \<Rightarrow> BitArray \<Rightarrow> failure + BitArray" where
  "Concat ba1 ba2 =
     andThen (New (wrap64 (bsize ba1 + bsize ba2)) []) (\<lambda>ba.
     let n = bsize ba2 sdiv 8 in
     andThen (for_up (\<lambda>i ba.
                 if i < 0 \<or> int (length (data ba2)) \<le> i then Inl RuntimePanic
                 else modify_byte ba i (\<lambda>_. data ba2 ! nat i)) 0 n ba) (\<lambda>ba.
     andThen (for_up (\<lambda>i ba.
                 andThen (get ba2 i) (\<lambda>b. if b then set_idx ba i else Inr ba))
                (n * 8) (bsize ba2) ba) (\<lambda>ba.
     andThen (for_up (\<lambda>i (ba, i2).
                 andThen (get ba1 i2) (\<lambda>b.
                 andThen (if b then set_idx ba i else Inr ba) (\<lambda>ba.
                 Inr (ba, i2 + 1))))
                (bsize ba2) (bsize ba) (ba, 0))
       (\<lambda>(ba, i2). Inr ba))))"

section \<open>Specification vocabulary\<close>

text \<open>
  \<open>bitOf ba i\<close> is the storage bit at position \<open>i\<close>, and \<open>inStore ba i\<close> says that the
  position exists. A vector is \<open>valid\<close> when its size is a positive Go integer, its
  storage has \<open>ceil(size / 8)\<close> bytes, and its padding bits, the storage bits at
  positions from \<open>size\<close> on, are all 0.
\<close>

definition bitOf :: "BitArray \<Rightarrow> int \<Rightarrow> bool" where
  "bitOf ba i = bit (data ba ! nat (i div 8)) (nat (i mod 8))"

definition inStore :: "BitArray \<Rightarrow> int \<Rightarrow> bool" where
  "inStore ba i \<longleftrightarrow> 0 \<le> i \<and> i < 8 * int (length (data ba))"

text \<open>\<open>write_bit ba i b\<close> is the vector \<open>ba\<close> with the storage bit \<open>i\<close> replaced by \<open>b\<close>: the
  result of the unexported \<^verbatim>\<open>set\<close> and \<^verbatim>\<open>unset\<close> at a position that exists.\<close>

definition write_bit :: "BitArray \<Rightarrow> int \<Rightarrow> bool \<Rightarrow> BitArray" where
  "write_bit ba i b =
     ba\<lparr>data := (data ba)[nat (i div 8) :=
            (if b then set_bit (nat (i mod 8)) (data ba ! nat (i div 8))
             else unset_bit (nat (i mod 8)) (data ba ! nat (i div 8)))]\<rparr>"

definition padding_zero :: "BitArray \<Rightarrow> bool" where
  "padding_zero ba \<longleftrightarrow>
     list_all (\<lambda>i. \<not> bitOf ba i) [bsize ba .. 8 * int (length (data ba)) - 1]"

definition valid :: "BitArray \<Rightarrow> bool" where
  "valid ba \<longleftrightarrow>
     0 < bsize ba \<and> bsize ba < 2 ^ 63 \<and> int (length (data ba)) = (bsize ba + 7) div 8
     \<and> padding_zero ba"

text \<open>\<open>bits_are t0 f t\<close>: the vector \<open>t\<close> has the size and the storage length of \<open>t0\<close>, and
  its storage bits are given by \<open>f\<close>.\<close>

definition bits_are :: "BitArray \<Rightarrow> (int \<Rightarrow> bool) \<Rightarrow> BitArray \<Rightarrow> bool" where
  "bits_are t0 f t \<longleftrightarrow>
     bsize t = bsize t0 \<and> length (data t) = length (data t0)
     \<and> (\<forall>k. inStore t0 k \<longrightarrow> bitOf t k = f k)"

text \<open>\<open>setBits ba\<close> is the set of the positions of the storage bits that are 1.\<close>

definition setBits :: "BitArray \<Rightarrow> int set" where
  "setBits ba = {k. inStore ba k \<and> bitOf ba k}"

text \<open>\<open>bitString ba\<close> is the text of a vector: one binary digit per bit below the size,
  the bit of the highest index first.\<close>

definition digit :: "bool \<Rightarrow> char" where
  "digit b = (if b then CHR ''1'' else CHR ''0'')"

definition bitString :: "BitArray \<Rightarrow> string" where
  "bitString ba = map (\<lambda>k. digit (bitOf ba (bsize ba - 1 - int k))) [0..<nat (bsize ba)]"



section \<open>Basic facts\<close>

lemma andThen_Inr [simp]: "andThen (Inr x) f = f x"
  by (simp add: andThen_def)

lemma andThen_Inl [simp]: "andThen (Inl e) f = Inl e"
  by (simp add: andThen_def)

lemma wrap64_id: "int64 x \<Longrightarrow> wrap64 x = x"
  by (simp add: wrap64_def int64_def)

lemma New_nonpos: "sz \<le> 0 \<Longrightarrow> New sz idx = Inl (Panic ''size must be > 0'')"
  by (simp add: New_def)

section \<open>The storage bits\<close>

lemma sdiv_nonneg: "0 \<le> (i::int) \<Longrightarrow> i sdiv 8 = i div 8"
  by (simp add: signed_divide_int_def sgn_if)

lemma smod_nonneg: "0 \<le> (i::int) \<Longrightarrow> i smod 8 = i mod 8"
  by (simp add: signed_modulo_int_def sgn_if)

lemma neg_sdiv_smod: "(i::int) < 0 \<Longrightarrow> i sdiv 8 < 0 \<or> i smod 8 < 0"
  using sdiv_mult_smod_eq [of i 8] by (smt (verit))

lemma inStore_div: "inStore ba i \<Longrightarrow> 0 \<le> i div 8 \<and> i div 8 < int (length (data ba))"
  unfolding inStore_def by presburger

lemma get_ok: "inStore ba i \<Longrightarrow> get ba i = Inr (bitOf ba i)"
  by (auto simp: inStore_def get_def bitOf_def Let_def sdiv_nonneg smod_nonneg
      bit_iff_and_push_bit_not_eq_0)

lemma get_panics: "\<not> inStore ba i \<Longrightarrow> get ba i = Inl RuntimePanic"
  using neg_sdiv_smod [of i]
  by (auto simp: inStore_def get_def Let_def sdiv_nonneg smod_nonneg)

lemma set_idx_ok: "inStore ba i \<Longrightarrow> set_idx ba i = Inr (write_bit ba i True)"
  by (auto simp: inStore_def set_idx_def write_bit_def Let_def sdiv_nonneg smod_nonneg
      set_bit_eq_or)

lemma unset_ok: "inStore ba i \<Longrightarrow> unset ba i = Inr (write_bit ba i False)"
  by (auto simp: inStore_def unset_def write_bit_def Let_def sdiv_nonneg smod_nonneg
      unset_bit_eq_and_not)

lemma set_idx_panics: "\<not> inStore ba i \<Longrightarrow> set_idx ba i = Inl RuntimePanic"
  using neg_sdiv_smod [of i]
  by (auto simp: inStore_def set_idx_def Let_def sdiv_nonneg smod_nonneg)

lemma unset_panics: "\<not> inStore ba i \<Longrightarrow> unset ba i = Inl RuntimePanic"
  using neg_sdiv_smod [of i]
  by (auto simp: inStore_def unset_def Let_def sdiv_nonneg smod_nonneg)

lemma put_ok: "inStore ba i \<Longrightarrow> put ba i b = Inr (write_bit ba i b)"
  by (simp add: put_def set_idx_ok unset_ok)

lemma bsize_write_bit [simp]: "bsize (write_bit ba i b) = bsize ba"
  by (simp add: write_bit_def)

lemma length_write_bit [simp]: "length (data (write_bit ba i b)) = length (data ba)"
  by (simp add: write_bit_def)

lemma inStore_write_bit [simp]: "inStore (write_bit ba i b) j = inStore ba j"
  by (simp add: inStore_def)

lemma div_mod_eqD: "(i::int) div 8 = j div 8 \<Longrightarrow> i mod 8 = j mod 8 \<Longrightarrow> i = j"
  by presburger

lemma bit_write_u8:
  fixes w :: u8
  shows "m < 8 \<Longrightarrow> bit (if b then set_bit k w else unset_bit k w) m
         = (if m = k then b else bit w m)"
  by (simp add: bit_set_bit_iff bit_unset_bit_iff)

lemma bitOf_write_bit:
  assumes "inStore ba i" "inStore ba j"
  shows "bitOf (write_bit ba i b) j = (if j = i then b else bitOf ba j)"
proof -
  have i: "nat (i div 8) < length (data ba)" "0 \<le> i div 8"
    using inStore_div [OF assms(1)] by auto
  have j: "nat (j div 8) < length (data ba)" "0 \<le> j div 8"
    using inStore_div [OF assms(2)] by auto
  have m: "nat (j mod 8) < 8" by simp
  show ?thesis
  proof (cases "j div 8 = i div 8")
    case True
    have "nat (j mod 8) = nat (i mod 8) \<Longrightarrow> i mod 8 = j mod 8"
      by (simp add: nat_eq_iff)
    then have eq: "(nat (j mod 8) = nat (i mod 8)) = (j = i)"
      using div_mod_eqD [OF True [symmetric]] by blast
    have "bitOf (write_bit ba i b) j
          = bit (if b then set_bit (nat (i mod 8)) (data ba ! nat (i div 8))
                 else unset_bit (nat (i mod 8)) (data ba ! nat (i div 8))) (nat (j mod 8))"
      using True i by (simp add: bitOf_def write_bit_def)
    also have "\<dots> = (if nat (j mod 8) = nat (i mod 8) then b
                      else bit (data ba ! nat (i div 8)) (nat (j mod 8)))"
      by (rule bit_write_u8 [OF m])
    finally show ?thesis
      using True by (simp add: eq bitOf_def)
  next
    case False
    then have "nat (j div 8) \<noteq> nat (i div 8)" "j \<noteq> i"
      using i j by auto
    then show ?thesis
      by (simp add: bitOf_def write_bit_def)
  qed
qed

lemma BitArray_eqI:
  fixes a b :: BitArray
  assumes "bsize a = bsize b" "length (data a) = length (data b)"
    and "\<And>j. inStore a j \<Longrightarrow> bitOf a j = bitOf b j"
  shows "a = b"
proof -
  have "data a = data b"
  proof (rule nth_equalityI)
    show "length (data a) = length (data b)" by fact
  next
    fix k assume k: "k < length (data a)"
    show "data a ! k = data b ! k"
    proof (rule bit_word_eqI)
      fix n assume "n < LENGTH(8)"
      then have n: "n < 8" by simp
      have "inStore a (8 * int k + int n)"
        using k n by (simp add: inStore_def)
      from assms(3) [OF this] n show "bit (data a ! k) n = bit (data b ! k) n"
        by (simp add: bitOf_def)
    qed
  qed
  with assms(1) show ?thesis by simp
qed

lemma padding_zero_iff:
  "padding_zero ba \<longleftrightarrow> (\<forall>i. bsize ba \<le> i \<and> i < 8 * int (length (data ba)) \<longrightarrow> \<not> bitOf ba i)"
  by (auto simp: padding_zero_def list_all_iff)

lemma valid_inStore: "valid ba \<Longrightarrow> 0 \<le> i \<Longrightarrow> i < bsize ba \<Longrightarrow> inStore ba i"
  by (auto simp: valid_def inStore_def)

section \<open>Loop rules\<close>

text \<open>An invariant that every iteration preserves, without failing, holds when the loop ends;
  the loop itself does not fail.\<close>

lemma for_up_rule:
  assumes "I i s"
    and "\<And>j t. i \<le> j \<Longrightarrow> j < hi \<Longrightarrow> I j t \<Longrightarrow> \<exists>t'. body j t = Inr t' \<and> I (j + 1) t'"
  shows "\<exists>t. for_up body i hi s = Inr t \<and> I (max i hi) t"
  using assms
proof (induction body i hi s rule: for_up.induct)
  case (1 body i hi s)
  show ?case
  proof (cases "i < hi")
    case True
    from "1.prems"(2) [of i s] True "1.prems"(1)
    obtain t' where t': "body i s = Inr t'" "I (i + 1) t'" by auto
    have "\<exists>t. for_up body (i + 1) hi t' = Inr t \<and> I (max (i + 1) hi) t"
      using "1.IH" [OF True t'(1) t'(2)] "1.prems"(2) by force
    with True t' show ?thesis
      by (subst for_up.simps) (auto simp: max_def)
  next
    case False
    with "1.prems"(1) show ?thesis
      by (subst for_up.simps) (simp add: max_def)
  qed
qed

lemma for_down_rule:
  assumes "I i s"
    and "\<And>j t. lo \<le> j \<Longrightarrow> j \<le> i \<Longrightarrow> I j t \<Longrightarrow> \<exists>t'. body j t = Inr t' \<and> I (j - 1) t'"
  shows "\<exists>t. for_down body i lo s = Inr t \<and> I (min i (lo - 1)) t"
  using assms
proof (induction body i lo s rule: for_down.induct)
  case (1 body i lo s)
  show ?case
  proof (cases "lo \<le> i")
    case True
    from "1.prems"(2) [of i s] True "1.prems"(1)
    obtain t' where t': "body i s = Inr t'" "I (i - 1) t'" by auto
    have "\<exists>t. for_down body (i - 1) lo t' = Inr t \<and> I (min (i - 1) (lo - 1)) t"
      using "1.IH" [OF True t'(1) t'(2)] "1.prems"(2) by force
    moreover have "min (i - 1) (lo - 1) = lo - 1" "min i (lo - 1) = lo - 1"
      using True by auto
    ultimately show ?thesis
      using True t' by (subst for_down.simps) auto
  next
    case False
    with "1.prems"(1) show ?thesis
      by (subst for_down.simps) (simp add: min_def)
  qed
qed

section \<open>Fresh vectors\<close>

lemma ceil8:
  fixes sz :: int
  shows "(if 0 < sz mod 8 then sz div 8 + 1 else sz div 8) = (sz + 7) div 8"
proof (cases "0 < sz mod 8")
  case True
  have "sz + 7 = 8 * (sz div 8 + 1) + (sz mod 8 - 1)"
    by (simp add: algebra_simps)
  moreover have "0 \<le> sz mod 8 - 1" "sz mod 8 - 1 < 8"
    using True pos_mod_bound [of 8 sz] by simp_all
  ultimately have "(sz + 7) div 8 = sz div 8 + 1"
    by (rule int_div_pos_eq)
  with True show ?thesis by simp
next
  case False
  then have z: "sz mod 8 = 0"
    using pos_mod_sign [of 8 sz] by simp
  have "sz + 7 = 8 * (sz div 8) + 7"
    using z mult_div_mod_eq [of 8 sz] by simp
  then have "(sz + 7) div 8 = sz div 8"
    by (rule int_div_pos_eq) simp_all
  with False show ?thesis by simp
qed

lemma New_empty:
  "0 < sz \<Longrightarrow> New sz [] = Inr \<lparr>bsize = sz, data = replicate (nat ((sz + 7) div 8)) 0\<rparr>"
  using ceil8 [of sz] by (simp add: New_def Let_def sdiv_nonneg smod_nonneg)

lemma bitOf_zeros:
  "inStore \<lparr>bsize = sz, data = replicate n 0\<rparr> j \<Longrightarrow> \<not> bitOf \<lparr>bsize = sz, data = replicate n 0\<rparr> j"
proof -
  assume a: "inStore \<lparr>bsize = sz, data = replicate n 0\<rparr> j"
  have "nat (j div 8) < n"
    using inStore_div [OF a] by (simp add: nat_less_iff)
  then show ?thesis
    by (simp add: bitOf_def)
qed

lemma valid_zeros:
  "0 < sz \<Longrightarrow> sz < 2 ^ 63 \<Longrightarrow> valid \<lparr>bsize = sz, data = replicate (nat ((sz + 7) div 8)) 0\<rparr>"
proof -
  assume sz: "0 < sz" "sz < 2 ^ 63"
  let ?z = "\<lparr>bsize = sz, data = replicate (nat ((sz + 7) div 8)) 0\<rparr>"
  have "padding_zero ?z"
    unfolding padding_zero_iff
  proof (intro allI impI)
    fix i assume "bsize ?z \<le> i \<and> i < 8 * int (length (data ?z))"
    then have "inStore ?z i" using sz by (simp add: inStore_def)
    then show "\<not> bitOf ?z i" by (rule bitOf_zeros)
  qed
  moreover have "0 \<le> (sz + 7) div 8" using sz by simp
  ultimately show ?thesis
    using sz by (simp add: valid_def)
qed

lemma valid_cover: "valid ba \<Longrightarrow> bsize ba \<le> 8 * int (length (data ba))"
  by (auto simp: valid_def)

lemma Get_ok: "valid ba \<Longrightarrow> 0 \<le> i \<Longrightarrow> i < bsize ba \<Longrightarrow> Get ba i = Inr (bitOf ba i)"
  by (simp add: Get_def checkIdx_def get_ok valid_inStore)

lemma Get_panics: "i < 0 \<or> bsize ba \<le> i \<Longrightarrow> Get ba i = Inl (Panic ''index out of range'')"
  by (auto simp: Get_def checkIdx_def)

section \<open>Slices\<close>

lemma Slice_loop:
  assumes r0: "bsize r0 = e - s" "8 * int (length (data r0)) \<ge> e - s"
      "\<And>k. inStore r0 k \<Longrightarrow> \<not> bitOf r0 k"
    and v: "\<And>j. s \<le> j \<Longrightarrow> j < e \<Longrightarrow> inStore v j" and se: "s \<le> e"
  shows "\<exists>r idx. for_up (\<lambda>i (result, idx).
                  andThen (get v i) (\<lambda>b.
                  andThen (if b then set_idx result idx else Inr result) (\<lambda>result'.
                  Inr (result', idx + 1))))
                s e (r0, 0) = Inr (r, idx)
           \<and> bsize r = e - s \<and> length (data r) = length (data r0)
           \<and> (\<forall>k. inStore r k \<longrightarrow> bitOf r k = (k < e - s \<and> bitOf v (s + k)))"
proof -
  define I where "I = (\<lambda>i (t :: BitArray \<times> int). snd t = i - s \<and> bsize (fst t) = e - s
      \<and> length (data (fst t)) = length (data r0)
      \<and> (\<forall>k. inStore (fst t) k \<longrightarrow> bitOf (fst t) k = (k < i - s \<and> bitOf v (s + k))))"
  define body where "body = (\<lambda>i (result, idx).
                  andThen (get v i) (\<lambda>b.
                  andThen (if b then set_idx result idx else Inr result) (\<lambda>result'.
                  Inr (result', idx + (1::int)))))"
  have init: "I s (r0, 0)"
    using r0 by (simp add: I_def inStore_def)
  have step: "\<exists>t'. body j t = Inr t' \<and> I (j + 1) t'" if j: "s \<le> j" "j < e" and t: "I j t" for j t
  proof -
    obtain r idx where rt: "t = (r, idx)" by (cases t)
    from t rt have idx: "idx = j - s" and sz: "bsize r = e - s"
      and len: "length (data r) = length (data r0)"
      and bits: "\<And>k. inStore r k \<Longrightarrow> bitOf r k = (k < j - s \<and> bitOf v (s + k))"
      by (auto simp: I_def)
    have inr: "inStore r idx"
      using idx j r0(2) len by (simp add: inStore_def)
    have g: "get v j = Inr (bitOf v j)"
      using v [OF j] by (rule get_ok)
    show ?thesis
    proof (cases "bitOf v j")
      case True
      have "body j t = Inr (write_bit r idx True, idx + 1)"
        using g True inr by (simp add: body_def rt set_idx_ok)
      moreover have "I (j + 1) (write_bit r idx True, idx + 1)"
        using idx sz len bits inr True
        by (auto simp: I_def bitOf_write_bit)
      ultimately show ?thesis by blast
    next
      case False
      have "body j t = Inr (r, idx + 1)"
        using g False by (simp add: body_def rt)
      moreover have "I (j + 1) (r, idx + 1)"
        unfolding I_def
      proof (simp add: idx sz len, intro allI impI)
        fix k assume k: "inStore r k"
        show "bitOf r k = (k < j + 1 - s \<and> bitOf v (s + k))"
        proof (cases "k = j - s")
          case True
          then show ?thesis using bits [OF k] False by simp
        next
          case False
          then show ?thesis using bits [OF k] by auto
        qed
      qed
      ultimately show ?thesis by blast
    qed
  qed
  from for_up_rule [of I s "(r0, 0)" e body, OF init step]
  obtain t where t: "for_up body s e (r0, 0) = Inr t" "I (max s e) t" by blast
  obtain r idx where rt: "t = (r, idx)" by (cases t)
  have "max s e = e" using se by simp
  with t rt show ?thesis
    unfolding body_def I_def by auto
qed


lemma Slice_ok:
  assumes v: "valid v" and se: "0 \<le> s" "s < e" "e \<le> bsize v"
  shows "\<exists>r. Slice v s e = Inr r \<and> bsize r = e - s \<and> valid r
           \<and> (\<forall>k. 0 \<le> k \<and> k < e - s \<longrightarrow> bitOf r k = bitOf v (s + k))"
proof -
  have b: "bsize v < 2 ^ 63" using v by (simp add: valid_def)
  have "int64 (e - 1)" "int64 (e - s)"
    using se b by (simp_all add: int64_def)
  then have w: "wrap64 (e - 1) = e - 1" "wrap64 (e - s) = e - s"
    by (simp_all add: wrap64_id)
  have c: "checkIdx v s = Inr ()" "checkIdx v (e - 1) = Inr ()"
    using se by (simp_all add: checkIdx_def)
  let ?z = "\<lparr>bsize = e - s, data = replicate (nat ((e - s + 7) div 8)) 0\<rparr>"
  have n: "New (e - s) [] = Inr ?z"
    using se by (simp add: New_empty)
  have vz: "valid ?z"
    using se b by (intro valid_zeros) simp_all
  have "\<exists>r idx. for_up (\<lambda>i (result, idx).
                  andThen (get v i) (\<lambda>b.
                  andThen (if b then set_idx result idx else Inr result) (\<lambda>result'.
                  Inr (result', idx + 1))))
                s e (?z, 0) = Inr (r, idx)
           \<and> bsize r = e - s \<and> length (data r) = length (data ?z)
           \<and> (\<forall>k. inStore r k \<longrightarrow> bitOf r k = (k < e - s \<and> bitOf v (s + k)))"
  proof (rule Slice_loop)
    show "bsize ?z = e - s" by simp
    show "e - s \<le> 8 * int (length (data ?z))" using valid_cover [OF vz] by simp
    show "\<And>k. inStore ?z k \<Longrightarrow> \<not> bitOf ?z k" by (rule bitOf_zeros)
    show "\<And>j. s \<le> j \<Longrightarrow> j < e \<Longrightarrow> inStore v j"
      using se by (intro valid_inStore [OF v]) simp_all
    show "s \<le> e" using se by simp
  qed
  then obtain r idx where r: "for_up (\<lambda>i (result, idx).
                  andThen (get v i) (\<lambda>b.
                  andThen (if b then set_idx result idx else Inr result) (\<lambda>result'.
                  Inr (result', idx + 1))))
                s e (?z, 0) = Inr (r, idx)"
      "bsize r = e - s" "length (data r) = length (data ?z)"
      "\<And>k. inStore r k \<Longrightarrow> bitOf r k = (k < e - s \<and> bitOf v (s + k))"
    by blast
  have "Slice v s e = Inr r"
    by (simp add: Slice_def c w n r(1))
  moreover have "valid r"
    using vz r(2,3,4) by (simp add: valid_def padding_zero_iff inStore_def)
  moreover have "bitOf r k = bitOf v (s + k)" if "0 \<le> k" "k < e - s" for k
    using r(4) [of k] valid_inStore [OF \<open>valid r\<close>, of k] that r(2) by simp
  ultimately show ?thesis using r(2) by blast
qed

lemma Slice_panics:
  assumes "bsize v < 2 ^ 63" "int64 s" "int64 e"
    and "s < 0 \<or> bsize v \<le> s \<or> e - 1 < 0 \<or> bsize v \<le> e - 1"
  shows "Slice v s e = Inl (Panic ''index out of range'')"
proof (cases "s < 0 \<or> bsize v \<le> s")
  case True
  then show ?thesis by (auto simp: Slice_def checkIdx_def)
next
  case False
  then have e: "e - 1 < 0 \<or> bsize v \<le> e - 1" using assms(4) by blast
  have "wrap64 (e - 1) < 0 \<or> bsize v \<le> wrap64 (e - 1)"
  proof (cases "e = - (2 ^ 63)")
    case True
    then have "wrap64 (e - 1) = 2 ^ 63 - 1" by (simp add: wrap64_def)
    then show ?thesis using assms(1) by simp
  next
    case False
    then have "int64 (e - 1)" using assms(3) by (simp add: int64_def)
    then show ?thesis using e by (simp add: wrap64_id)
  qed
  then show ?thesis
    using False by (auto simp: Slice_def checkIdx_def)
qed

section \<open>Loops that write one bit per iteration\<close>

lemma bits_are_refl: "bits_are t (bitOf t) t"
  by (simp add: bits_are_def)

lemma bits_are_inStore: "bits_are t0 f t \<Longrightarrow> inStore t k = inStore t0 k"
  by (simp add: bits_are_def inStore_def)

lemma bits_are_unique: "bits_are t0 f t \<Longrightarrow> bits_are t0 f u \<Longrightarrow> t = u"
  by (rule BitArray_eqI) (simp_all add: bits_are_def inStore_def)

lemma bits_are_write:
  assumes "bits_are t0 f t" "inStore t0 j"
  shows "bits_are t0 (\<lambda>k. if k = j then b else f k) (write_bit t j b)"
proof -
  have s: "inStore t k = inStore t0 k" for k
    using assms(1) by (rule bits_are_inStore)
  have "bitOf (write_bit t j b) k = (if k = j then b else f k)" if "inStore t0 k" for k
    using bitOf_write_bit [of t j k b] assms that s by (simp add: bits_are_def)
  then show ?thesis
    using assms(1) by (simp add: bits_are_def)
qed

lemma bits_are_cong: "bits_are t0 f t \<Longrightarrow> (\<And>k. inStore t0 k \<Longrightarrow> f k = g k) \<Longrightarrow> bits_are t0 g t"
  by (simp add: bits_are_def)

lemma write_bit_same: "inStore t i \<Longrightarrow> bitOf t i = b \<Longrightarrow> write_bit t i b = t"
  by (rule BitArray_eqI) (simp_all add: bitOf_write_bit)

lemma cond_set_idx:
  "inStore t i \<Longrightarrow> \<not> bitOf t i \<Longrightarrow> (if b then set_idx t i else Inr t) = Inr (write_bit t i b)"
  by (simp add: set_idx_ok write_bit_same)

lemma for_up_bits:
  assumes lohi: "lo \<le> hi"
    and range: "\<And>j. lo \<le> j \<Longrightarrow> j < hi \<Longrightarrow> inStore t0 j"
    and body: "\<And>j t. lo \<le> j \<Longrightarrow> j < hi
        \<Longrightarrow> bits_are t0 (\<lambda>k. if lo \<le> k \<and> k < j then F k else bitOf t0 k) t
        \<Longrightarrow> body j t = Inr (write_bit t j (F j))"
  shows "\<exists>t. for_up body lo hi t0 = Inr t
             \<and> bits_are t0 (\<lambda>k. if lo \<le> k \<and> k < hi then F k else bitOf t0 k) t"
proof -
  define I where "I = (\<lambda>j. bits_are t0 (\<lambda>k. if lo \<le> k \<and> k < j then F k else bitOf t0 k))"
  have init: "I lo t0"
    unfolding I_def by (rule bits_are_cong [OF bits_are_refl]) auto
  have step: "\<exists>t'. body j t = Inr t' \<and> I (j + 1) t'" if j: "lo \<le> j" "j < hi" and t: "I j t" for j t
  proof -
    have b: "body j t = Inr (write_bit t j (F j))"
      using body [OF j] t by (simp add: I_def)
    have "bits_are t0 (\<lambda>k. if k = j then F j else (if lo \<le> k \<and> k < j then F k else bitOf t0 k))
            (write_bit t j (F j))"
      using t range [OF j] unfolding I_def by (rule bits_are_write)
    then have "I (j + 1) (write_bit t j (F j))"
      unfolding I_def by (rule bits_are_cong) (use j in auto)
    with b show ?thesis by blast
  qed
  from for_up_rule [of I lo t0 hi body, OF init step] lohi
  show ?thesis by (simp add: I_def max_def)
qed

lemma for_down_bits:
  assumes lohi: "lo \<le> hi + 1"
    and range: "\<And>j. lo \<le> j \<Longrightarrow> j \<le> hi \<Longrightarrow> inStore t0 j"
    and body: "\<And>j t. lo \<le> j \<Longrightarrow> j \<le> hi
        \<Longrightarrow> bits_are t0 (\<lambda>k. if j < k \<and> k \<le> hi then F k else bitOf t0 k) t
        \<Longrightarrow> body j t = Inr (write_bit t j (F j))"
  shows "\<exists>t. for_down body hi lo t0 = Inr t
             \<and> bits_are t0 (\<lambda>k. if lo \<le> k \<and> k \<le> hi then F k else bitOf t0 k) t"
proof -
  define I where "I = (\<lambda>j. bits_are t0 (\<lambda>k. if j < k \<and> k \<le> hi then F k else bitOf t0 k))"
  have init: "I hi t0"
    unfolding I_def by (rule bits_are_cong [OF bits_are_refl]) auto
  have step: "\<exists>t'. body j t = Inr t' \<and> I (j - 1) t'" if j: "lo \<le> j" "j \<le> hi" and t: "I j t" for j t
  proof -
    have b: "body j t = Inr (write_bit t j (F j))"
      using body [OF j] t by (simp add: I_def)
    have "bits_are t0 (\<lambda>k. if k = j then F j else (if j < k \<and> k \<le> hi then F k else bitOf t0 k))
            (write_bit t j (F j))"
      using t range [OF j] unfolding I_def by (rule bits_are_write)
    then have "I (j - 1) (write_bit t j (F j))"
      unfolding I_def by (rule bits_are_cong) (use j in auto)
    with b show ?thesis by blast
  qed
  from for_down_rule [of I hi t0 lo body, OF init step]
  obtain t where t: "for_down body hi lo t0 = Inr t" "I (min hi (lo - 1)) t" by blast
  have "min hi (lo - 1) = lo - 1" using lohi by simp
  with t have "bits_are t0 (\<lambda>k. if lo - 1 < k \<and> k \<le> hi then F k else bitOf t0 k) t"
    by (simp add: I_def)
  then have "bits_are t0 (\<lambda>k. if lo \<le> k \<and> k \<le> hi then F k else bitOf t0 k) t"
    by (rule bits_are_cong) auto
  with t(1) show ?thesis by blast
qed

section \<open>Moving bits\<close>

lemma bits_are_trans: "bits_are t0 f t \<Longrightarrow> bits_are t g t' \<Longrightarrow> bits_are t0 g t'"
  by (simp add: bits_are_def inStore_def)

lemma bits_are_bitOf: "bits_are t0 f t \<Longrightarrow> inStore t0 k \<Longrightarrow> bitOf t k = f k"
  by (simp add: bits_are_def)

lemma bits_are_valid:
  assumes "bits_are t0 f t" "valid t0" "\<And>k. bsize t0 \<le> k \<Longrightarrow> inStore t0 k \<Longrightarrow> \<not> f k"
  shows "valid t"
  using assms by (simp add: valid_def padding_zero_iff bits_are_def inStore_def)

lemma valid_padding: "valid ba \<Longrightarrow> bsize ba \<le> k \<Longrightarrow> inStore ba k \<Longrightarrow> \<not> bitOf ba k"
  by (simp add: valid_def padding_zero_iff inStore_def)

lemma moveBits_pos:
  assumes v: "valid ba" and n: "0 < n" "n < bsize ba"
  shows "\<exists>t. moveBits ba n = Inr (t, 0, n)
           \<and> bits_are ba (\<lambda>k. if n \<le> k \<and> k < bsize ba then bitOf ba (k - n) else bitOf ba k) t"
proof -
  let ?body = "\<lambda>i t. andThen (get t (i - n)) (put t i)"
  have "\<exists>t. for_down ?body (bsize ba - 1) n ba = Inr t
          \<and> bits_are ba (\<lambda>k. if n \<le> k \<and> k \<le> bsize ba - 1 then bitOf ba (k - n) else bitOf ba k) t"
  proof (rule for_down_bits)
    show "n \<le> bsize ba - 1 + 1" using n by simp
  next
    fix j assume "n \<le> j" "j \<le> bsize ba - 1"
    then show "inStore ba j" using n by (intro valid_inStore [OF v]) simp_all
  next
    fix j t
    assume j: "n \<le> j" "j \<le> bsize ba - 1"
      and t: "bits_are ba (\<lambda>k. if j < k \<and> k \<le> bsize ba - 1 then bitOf ba (k - n) else bitOf ba k) t"
    have sj: "inStore ba j" "inStore ba (j - n)"
      using j n by (auto intro!: valid_inStore [OF v])
    then have st: "inStore t j" "inStore t (j - n)"
      using bits_are_inStore [OF t] by simp_all
    have "bitOf t (j - n) = bitOf ba (j - n)"
      using bits_are_bitOf [OF t sj(2)] n by simp
    then show "?body j t = Inr (write_bit t j (bitOf ba (j - n)))"
      using st by (simp add: get_ok put_ok)
  qed
  then obtain t where t: "for_down ?body (bsize ba - 1) n ba = Inr t"
    "bits_are ba (\<lambda>k. if n \<le> k \<and> k \<le> bsize ba - 1 then bitOf ba (k - n) else bitOf ba k) t"
    by blast
  have "moveBits ba n = Inr (t, 0, n)"
    using n t(1) by (simp add: moveBits_def)
  moreover have "bits_are ba (\<lambda>k. if n \<le> k \<and> k < bsize ba then bitOf ba (k - n) else bitOf ba k) t"
    using t(2) by (rule bits_are_cong) auto
  ultimately show ?thesis by blast
qed

lemma moveBits_neg:
  assumes v: "valid ba" and m: "0 < m" "m < bsize ba"
  shows "\<exists>t. moveBits ba (- m) = Inr (t, bsize ba - m, bsize ba)
           \<and> bits_are ba (\<lambda>k. if 0 \<le> k \<and> k < bsize ba - m then bitOf ba (k + m) else bitOf ba k) t"
proof -
  have b: "bsize ba < 2 ^ 63" using v by (simp add: valid_def)
  have "int64 m" "int64 (bsize ba - m)"
    using m b by (simp_all add: int64_def)
  then have w: "wrap64 m = m" "wrap64 (bsize ba - m) = bsize ba - m"
    by (simp_all add: wrap64_id)
  let ?body = "\<lambda>i t. andThen (get t (i + m)) (put t i)"
  have "\<exists>t. for_up ?body 0 (bsize ba - m) ba = Inr t
          \<and> bits_are ba (\<lambda>k. if 0 \<le> k \<and> k < bsize ba - m then bitOf ba (k + m) else bitOf ba k) t"
  proof (rule for_up_bits)
    show "0 \<le> bsize ba - m" using m by simp
  next
    fix j :: int assume "0 \<le> j" "j < bsize ba - m"
    then show "inStore ba j" using m by (intro valid_inStore [OF v]) simp_all
  next
    fix j t
    assume j: "0 \<le> j" "j < bsize ba - m"
      and t: "bits_are ba (\<lambda>k. if 0 \<le> k \<and> k < j then bitOf ba (k + m) else bitOf ba k) t"
    have sj: "inStore ba j" "inStore ba (j + m)"
      using j m by (auto intro!: valid_inStore [OF v])
    then have st: "inStore t j" "inStore t (j + m)"
      using bits_are_inStore [OF t] by simp_all
    have "bitOf t (j + m) = bitOf ba (j + m)"
      using bits_are_bitOf [OF t sj(2)] m by simp
    then show "?body j t = Inr (write_bit t j (bitOf ba (j + m)))"
      using st by (simp add: get_ok put_ok)
  qed
  then obtain t where t: "for_up ?body 0 (bsize ba - m) ba = Inr t"
    "bits_are ba (\<lambda>k. if 0 \<le> k \<and> k < bsize ba - m then bitOf ba (k + m) else bitOf ba k) t"
    by blast
  have "bsize t = bsize ba"
    using t(2) by (simp add: bits_are_def)
  then have "moveBits ba (- m) = Inr (t, bsize ba - m, bsize ba)"
    using m t(1) w by (simp add: moveBits_def Let_def)
  with t(2) show ?thesis by blast
qed

lemma valid_bit_lt:
  "valid ba \<Longrightarrow> 0 \<le> k \<Longrightarrow> k < 8 * int (length (data ba)) \<Longrightarrow> bitOf ba k \<Longrightarrow> k < bsize ba"
  using valid_padding [of ba k] by (cases "bsize ba \<le> k") (auto simp: inStore_def)

lemma for_up_empty: "hi \<le> lo \<Longrightarrow> for_up body lo hi s = Inr s"
  by (subst for_up.simps) simp

lemma unset_loop:
  assumes t: "bits_are ba f t" and lohi: "lo \<le> hi"
    and range: "\<And>j. lo \<le> j \<Longrightarrow> j < hi \<Longrightarrow> inStore ba j"
  shows "\<exists>t'. for_up (\<lambda>i ba. unset ba i) lo hi t = Inr t'
            \<and> bits_are ba (\<lambda>k. if lo \<le> k \<and> k < hi then False else f k) t'"
proof -
  have "\<exists>t'. for_up (\<lambda>i ba. unset ba i) lo hi t = Inr t'
            \<and> bits_are t (\<lambda>k. if lo \<le> k \<and> k < hi then False else bitOf t k) t'"
  proof (rule for_up_bits [OF lohi])
    fix j assume "lo \<le> j" "j < hi"
    then show "inStore t j" using range bits_are_inStore [OF t] by simp
  next
    fix j u assume j: "lo \<le> j" "j < hi"
      and u: "bits_are t (\<lambda>k. if lo \<le> k \<and> k < j then False else bitOf t k) u"
    have "inStore u j"
      using range [OF j] bits_are_inStore [OF t] bits_are_inStore [OF u] by simp
    then show "unset u j = Inr (write_bit u j False)" by (rule unset_ok)
  qed
  then obtain t' where t': "for_up (\<lambda>i ba. unset ba i) lo hi t = Inr t'"
    "bits_are t (\<lambda>k. if lo \<le> k \<and> k < hi then False else bitOf t k) t'" by blast
  have "bits_are ba (\<lambda>k. if lo \<le> k \<and> k < hi then False else bitOf t k) t'"
    using t t'(2) by (rule bits_are_trans)
  then have "bits_are ba (\<lambda>k. if lo \<le> k \<and> k < hi then False else f k) t'"
    by (rule bits_are_cong) (simp add: bits_are_bitOf [OF t])
  with t'(1) show ?thesis by blast
qed

lemma fill_loop:
  assumes t: "bits_are ba f t" and lohi: "lo \<le> hi"
    and range: "\<And>j. lo \<le> j \<Longrightarrow> j < hi \<Longrightarrow> inStore ba j \<and> inStore a (j - lo)"
  shows "\<exists>t'. for_up (\<lambda>i ba. andThen (get a (i - lo)) (put ba i)) lo hi t = Inr t'
            \<and> bits_are ba (\<lambda>k. if lo \<le> k \<and> k < hi then bitOf a (k - lo) else f k) t'"
proof -
  let ?body = "\<lambda>i ba. andThen (get a (i - lo)) (put ba i)"
  have "\<exists>t'. for_up ?body lo hi t = Inr t'
            \<and> bits_are t (\<lambda>k. if lo \<le> k \<and> k < hi then bitOf a (k - lo) else bitOf t k) t'"
  proof (rule for_up_bits [OF lohi])
    fix j assume "lo \<le> j" "j < hi"
    then show "inStore t j" using range bits_are_inStore [OF t] by simp
  next
    fix j u assume j: "lo \<le> j" "j < hi"
      and u: "bits_are t (\<lambda>k. if lo \<le> k \<and> k < j then bitOf a (k - lo) else bitOf t k) u"
    have "inStore u j"
      using range [OF j] bits_are_inStore [OF t] bits_are_inStore [OF u] by simp
    then show "?body j u = Inr (write_bit u j (bitOf a (j - lo)))"
      using range [OF j] by (simp add: get_ok put_ok)
  qed
  then obtain t' where t': "for_up ?body lo hi t = Inr t'"
    "bits_are t (\<lambda>k. if lo \<le> k \<and> k < hi then bitOf a (k - lo) else bitOf t k) t'" by blast
  have "bits_are ba (\<lambda>k. if lo \<le> k \<and> k < hi then bitOf a (k - lo) else bitOf t k) t'"
    using t t'(2) by (rule bits_are_trans)
  then have "bits_are ba (\<lambda>k. if lo \<le> k \<and> k < hi then bitOf a (k - lo) else f k) t'"
    by (rule bits_are_cong) (simp add: bits_are_bitOf [OF t])
  with t'(1) show ?thesis by blast
qed

section \<open>Shift\<close>

lemma bits_are_Clear: "bits_are ba (\<lambda>k. False) (Clear ba)"
proof -
  have "\<not> bitOf (Clear ba) k" if "inStore ba k" for k
  proof -
    have "nat (k div 8) < length (data ba)"
      using inStore_div [OF that] by (simp add: nat_less_iff)
    then show ?thesis by (simp add: bitOf_def Clear_def)
  qed
  then show ?thesis by (simp add: bits_are_def Clear_def)
qed

text \<open>The bits of a vector shifted by \<open>n\<close>: bit \<open>k\<close> of the result is bit \<open>k - n\<close> of the
  original where that position is inside the vector, and 0 elsewhere.\<close>

lemma Shift_ok:
  assumes v: "valid ba" and n: "int64 n" "n \<noteq> - (2 ^ 63)"
  shows "\<exists>t. Shift ba n = Inr t
           \<and> bits_are ba (\<lambda>k. 0 \<le> k \<and> k < bsize ba \<and> 0 \<le> k - n \<and> k - n < bsize ba
                               \<and> bitOf ba (k - n)) t"
proof -
  let ?F = "\<lambda>k. 0 \<le> k \<and> k < bsize ba \<and> 0 \<le> k - n \<and> k - n < bsize ba \<and> bitOf ba (k - n)"
  have "int64 (- n)" using n by (simp add: int64_def)
  then have w: "wrap64 (- n) = - n" by (rule wrap64_id)
  have pos: "0 < bsize ba" using v by (simp add: valid_def)
  consider (out) "bsize ba \<le> \<bar>n\<bar>" | (zero) "n = 0"
    | (left) "0 < n" "n < bsize ba" | (right) "n < 0" "- n < bsize ba"
    by linarith
  then show ?thesis
  proof cases
    case out
    then have "Shift ba n = Inr (Clear ba)"
      using w pos by (auto simp: Shift_def)
    moreover have "bits_are ba ?F (Clear ba)"
      by (rule bits_are_cong [OF bits_are_Clear]) (use out in auto)
    ultimately show ?thesis by blast
  next
    case zero
    have "Shift ba n = Inr ba"
      using zero pos by (simp add: Shift_def moveBits_def for_up_empty)
    moreover have "bits_are ba ?F ba"
      by (rule bits_are_cong [OF bits_are_refl])
        (use zero valid_bit_lt [OF v] in \<open>auto simp: inStore_def\<close>)
    ultimately show ?thesis by blast
  next
    case left
    from moveBits_pos [OF v left] obtain t where t: "moveBits ba n = Inr (t, 0, n)"
      "bits_are ba (\<lambda>k. if n \<le> k \<and> k < bsize ba then bitOf ba (k - n) else bitOf ba k) t"
      by blast
    have "\<exists>t'. for_up (\<lambda>i ba. unset ba i) 0 n t = Inr t'
            \<and> bits_are ba (\<lambda>k. if 0 \<le> k \<and> k < n then False
                 else if n \<le> k \<and> k < bsize ba then bitOf ba (k - n) else bitOf ba k) t'"
      using t(2)
    proof (rule unset_loop)
      show "0 \<le> n" using left by simp
      show "\<And>j. 0 \<le> j \<Longrightarrow> j < n \<Longrightarrow> inStore ba j"
        using left by (intro valid_inStore [OF v]) simp_all
    qed
    then obtain t' where t': "for_up (\<lambda>i ba. unset ba i) 0 n t = Inr t'"
      "bits_are ba (\<lambda>k. if 0 \<le> k \<and> k < n then False
                 else if n \<le> k \<and> k < bsize ba then bitOf ba (k - n) else bitOf ba k) t'"
      by blast
    have "Shift ba n = Inr t'"
      using left t(1) t'(1) by (simp add: Shift_def)
    moreover have "bits_are ba ?F t'"
      using t'(2) by (rule bits_are_cong)
        (use left valid_bit_lt [OF v] in \<open>auto simp: inStore_def\<close>)
    ultimately show ?thesis by blast
  next
    case right
    define m where "m = - n"
    have m: "0 < m" "m < bsize ba" "n = - m" using right by (simp_all add: m_def)
    from moveBits_neg [OF v m(1,2)] obtain t
      where t: "moveBits ba n = Inr (t, bsize ba - m, bsize ba)"
      "bits_are ba (\<lambda>k. if 0 \<le> k \<and> k < bsize ba - m then bitOf ba (k + m) else bitOf ba k) t"
      using m(3) by blast
    have "\<exists>t'. for_up (\<lambda>i ba. unset ba i) (bsize ba - m) (bsize ba) t = Inr t'
            \<and> bits_are ba (\<lambda>k. if bsize ba - m \<le> k \<and> k < bsize ba then False
                 else if 0 \<le> k \<and> k < bsize ba - m then bitOf ba (k + m) else bitOf ba k) t'"
      using t(2)
    proof (rule unset_loop)
      show "bsize ba - m \<le> bsize ba" using m by simp
      show "\<And>j. bsize ba - m \<le> j \<Longrightarrow> j < bsize ba \<Longrightarrow> inStore ba j"
        using m by (intro valid_inStore [OF v]) simp_all
    qed
    then obtain t' where t': "for_up (\<lambda>i ba. unset ba i) (bsize ba - m) (bsize ba) t = Inr t'"
      "bits_are ba (\<lambda>k. if bsize ba - m \<le> k \<and> k < bsize ba then False
                 else if 0 \<le> k \<and> k < bsize ba - m then bitOf ba (k + m) else bitOf ba k) t'"
      by blast
    have "Shift ba n = Inr t'"
      using right w t(1) t'(1) by (simp add: Shift_def)
    moreover have "bits_are ba ?F t'"
      using t'(2) by (rule bits_are_cong)
        (use m valid_bit_lt [OF v] in \<open>auto simp: inStore_def\<close>)
    ultimately show ?thesis by blast
  qed
qed

lemma Shift_min_int:
  assumes "0 < bsize ba" "bsize ba < 2 ^ 63"
  shows "Shift ba (- (2 ^ 63)) = Inl RuntimePanic"
proof -
  define M :: int where "M = 2 ^ 63"
  have M: "0 < M" "bsize ba < M" using assms by (simp_all add: M_def)
  have w: "wrap64 M = - M" by (simp add: wrap64_def M_def)
  have "wrap64 (bsize ba + M) = wrap64 (bsize ba - M)"
    by (simp add: wrap64_def M_def)
  moreover have "int64 (bsize ba - M)" using assms by (simp add: int64_def M_def)
  ultimately have s: "wrap64 (bsize ba + M) = bsize ba - M"
    by (simp add: wrap64_id)
  have m: "moveBits ba (- M) = Inr (ba, bsize ba - M, bsize ba)"
    using M by (simp add: moveBits_def Let_def w s for_up_empty)
  have "\<not> inStore ba (bsize ba - M)"
    using M by (simp add: inStore_def)
  then have "unset ba (bsize ba - M) = Inl RuntimePanic"
    by (rule unset_panics)
  then have "for_up (\<lambda>i ba. unset ba i) (bsize ba - M) (bsize ba) ba = Inl RuntimePanic"
    using M by (subst for_up.simps) simp
  then have "Shift ba (- M) = Inl RuntimePanic"
    using M w m assms(1) by (simp add: Shift_def)
  then show ?thesis by (simp add: M_def)
qed

section \<open>Counting\<close>

lemma fold_add: "fold (\<lambda>x cnt. cnt + f x) xs (a::int) = a + sum_list (map f xs)"
  by (induction xs arbitrary: a) simp_all

lemma OnesCount8_card: "OnesCount8 x = int (card {m. m < 8 \<and> bit x m})"
proof -
  have "length (filter (bit x) [0..<8]) = card {i. i < length [0..<8] \<and> bit x ([0..<8] ! i)}"
    by (rule length_filter_conv_card)
  also have "{i. i < length [0..<8] \<and> bit x ([0..<8] ! i)} = {m. m < 8 \<and> bit x m}"
    by auto
  finally show ?thesis by (simp add: OnesCount8_def)
qed

lemma finite_bounded_int: "finite {k::int. 0 \<le> k \<and> k < n \<and> P k}"
  by (rule finite_subset [of _ "{0..<n}"]) auto

lemma sum_OnesCount8:
  "sum_list (map OnesCount8 xs)
   = int (card {k::int. 0 \<le> k \<and> k < 8 * int (length xs) \<and> bit (xs ! nat (k div 8)) (nat (k mod 8))})"
proof (induction xs rule: rev_induct)
  case Nil
  have e: "{k::int. 0 \<le> k \<and> k < 0 \<and> P k} = {}" for P
    by auto
  show ?case by (simp add: e)
next
  case (snoc x xs)
  let ?n = "int (length xs)"
  let ?A = "{k::int. 0 \<le> k \<and> k < 8 * ?n \<and> bit (xs ! nat (k div 8)) (nat (k mod 8))}"
  let ?B = "(\<lambda>m. 8 * ?n + int m) ` {m. m < 8 \<and> bit x m}"
  let ?C = "{k::int. 0 \<le> k \<and> k < 8 * int (length (xs @ [x]))
              \<and> bit ((xs @ [x]) ! nat (k div 8)) (nat (k mod 8))}"
  have C: "?C = ?A \<union> ?B"
  proof (rule set_eqI)
    fix k :: int
    show "k \<in> ?C \<longleftrightarrow> k \<in> ?A \<union> ?B"
    proof (cases "k < 8 * ?n")
      case True
      have "0 \<le> k \<Longrightarrow> nat (k div 8) < length xs"
        using True by (simp add: nat_less_iff)
      then have "0 \<le> k \<Longrightarrow> (xs @ [x]) ! nat (k div 8) = xs ! nat (k div 8)"
        by (simp add: nth_append)
      moreover have "k \<notin> ?B" using True by auto
      ultimately show ?thesis using True by auto
    next
      case False
      then have kA: "k \<notin> ?A" by simp
      show ?thesis
      proof (cases "k < 8 * ?n + 8")
        case True
        have d: "k div 8 = ?n"
          using True False by linarith
        have m: "k = 8 * ?n + int (nat (k mod 8))" "nat (k mod 8) < 8"
          using d mult_div_mod_eq [of 8 k] by simp_all
        have n: "(xs @ [x]) ! nat (k div 8) = x"
          by (simp add: d)
        have k0: "0 \<le> k" using False by linarith
        have "k \<in> ?C \<longleftrightarrow> bit x (nat (k mod 8))"
          using True k0 n by simp
        also have "\<dots> \<longleftrightarrow> k \<in> ?B"
        proof
          assume "bit x (nat (k mod 8))"
          then have "nat (k mod 8) \<in> {m. m < 8 \<and> bit x m}" using m(2) by simp
          then have "8 * ?n + int (nat (k mod 8)) \<in> ?B" by (rule imageI)
          then show "k \<in> ?B" using m(1) by simp
        next
          assume "k \<in> ?B"
          then obtain m' where m': "k = 8 * ?n + int m'" "m' < 8" "bit x m'" by auto
          then have "k mod 8 = int m'" by simp
          then show "bit x (nat (k mod 8))" using m'(3) by simp
        qed
        finally have "k \<in> ?C \<longleftrightarrow> k \<in> ?B" .
        with kA show ?thesis by blast
      next
        case False
        then have "k \<notin> ?C" by simp
        moreover have "k \<notin> ?B" using False by auto
        ultimately show ?thesis using kA by blast
      qed
    qed
  qed
  have fA: "finite ?A" by (rule finite_bounded_int)
  have fB: "finite ?B" by simp
  have dis: "?A \<inter> ?B = {}" by auto
  have "inj_on (\<lambda>m. 8 * ?n + int m) {m. m < 8 \<and> bit x m}"
    by (rule inj_onI) simp
  then have cB: "card ?B = card {m. m < 8 \<and> bit x m}"
    by (rule card_image)
  have "card ?C = card ?A + card ?B"
    unfolding C using fA fB dis by (rule card_Un_disjoint)
  then have "int (card ?C) = int (card ?A) + OnesCount8 x"
    by (simp add: cB OnesCount8_card)
  with snoc.IH show ?case by simp
qed

lemma Count_card: "Count ba = int (card (setBits ba))"
  by (simp add: Count_def fold_add sum_OnesCount8 setBits_def inStore_def bitOf_def)

lemma finite_setBits: "finite (setBits ba)"
  unfolding setBits_def inStore_def
  by (rule finite_subset [of _ "{0..<8 * int (length (data ba))}"]) auto

lemma setBits_bits_are:
  "bits_are t0 f t \<Longrightarrow> setBits t = {k. inStore t0 k \<and> f k}"
  by (auto simp: setBits_def bits_are_inStore bits_are_bitOf)

lemma setBits_valid: "valid ba \<Longrightarrow> setBits ba = {k. 0 \<le> k \<and> k < bsize ba \<and> bitOf ba k}"
  using valid_bit_lt [of ba] valid_inStore [of ba]
  by (auto simp: setBits_def inStore_def)

section \<open>Rotation\<close>

lemma smod_bounds:
  assumes "0 < (s::int)"
  shows "- s < n smod s \<and> n smod s < s"
proof -
  have "0 \<le> \<bar>n\<bar> mod s" "\<bar>n\<bar> mod s < s"
    using assms by simp_all
  then show ?thesis
    by (cases "n < 0"; cases "n = 0") (simp_all add: signed_modulo_int_def)
qed

lemma mod_below: "- s \<le> (x::int) \<Longrightarrow> x < 0 \<Longrightarrow> x mod s = x + s"
proof -
  assume a: "- s \<le> x" "x < 0"
  have "x mod s = (x + s) mod s" by simp
  also have "\<dots> = x + s" using a by (intro mod_pos_pos_trivial) simp_all
  finally show ?thesis .
qed

lemma mod_above: "s \<le> (x::int) \<Longrightarrow> x < 2 * s \<Longrightarrow> x mod s = x - s"
proof -
  assume a: "s \<le> x" "x < 2 * s"
  have "x mod s = (x - s) mod s" by simp
  also have "\<dots> = x - s" using a by (intro mod_pos_pos_trivial) simp_all
  finally show ?thesis .
qed

lemma Rotate_ok:
  assumes v: "valid ba"
  shows "\<exists>t. Rotate ba n = Inr t
           \<and> bits_are ba (\<lambda>k. if 0 \<le> k \<and> k < bsize ba
                                then bitOf ba ((k - n smod bsize ba) mod bsize ba)
                                else bitOf ba k) t"
proof -
  define s where "s = bsize ba"
  define r where "r = n smod s"
  let ?G = "\<lambda>k. if 0 \<le> k \<and> k < s then bitOf ba ((k - r) mod s) else bitOf ba k"
  have s: "0 < s" "s < 2 ^ 63" using v by (simp_all add: valid_def s_def)
  have r: "- s < r" "r < s" using smod_bounds [OF s(1), of n] by (simp_all add: r_def)
  consider (zero) "r = 0" | (left) "0 < r" | (right) "r < 0" by linarith
  then have "\<exists>t. Rotate ba n = Inr t \<and> bits_are ba ?G t"
  proof cases
    case zero
    have "Rotate ba n = Inr ba"
      using s zero by (simp add: Rotate_def s_def [symmetric] r_def [symmetric]
          moveBits_def for_up_empty)
    moreover have "bits_are ba ?G ba"
      by (rule bits_are_cong [OF bits_are_refl]) (simp add: zero)
    ultimately show ?thesis by blast
  next
    case left
    have "int64 (s - r)" using s r left by (simp add: int64_def)
    then have w: "wrap64 (s - r) = s - r" by (rule wrap64_id)
    from Slice_ok [OF v, of "s - r" s] obtain a
      where a: "Slice ba (s - r) s = Inr a" "bsize a = r" "valid a"
        "\<And>k. 0 \<le> k \<and> k < r \<Longrightarrow> bitOf a k = bitOf ba (s - r + k)"
      using r left by (auto simp: s_def)
    from moveBits_pos [OF v, of r] obtain t
      where t: "moveBits ba r = Inr (t, 0, r)"
        "bits_are ba (\<lambda>k. if r \<le> k \<and> k < s then bitOf ba (k - r) else bitOf ba k) t"
      using left r by (auto simp: s_def)
    have "\<exists>t'. for_up (\<lambda>i ba. andThen (get a (i - 0)) (put ba i)) 0 r t = Inr t'
            \<and> bits_are ba (\<lambda>k. if 0 \<le> k \<and> k < r then bitOf a (k - 0)
                 else if r \<le> k \<and> k < s then bitOf ba (k - r) else bitOf ba k) t'"
      using t(2)
    proof (rule fill_loop)
      show "0 \<le> r" using left by simp
      fix j assume j: "0 \<le> j" "j < r"
      have "inStore ba j" using j r by (intro valid_inStore [OF v]) (simp_all add: s_def)
      moreover have "inStore a (j - 0)" using j a(2) by (intro valid_inStore [OF a(3)]) simp_all
      ultimately show "inStore ba j \<and> inStore a (j - 0)" by blast
    qed
    then obtain t' where t': "for_up (\<lambda>i ba. andThen (get a i) (put ba i)) 0 r t = Inr t'"
      "bits_are ba (\<lambda>k. if 0 \<le> k \<and> k < r then bitOf a (k - 0)
                 else if r \<le> k \<and> k < s then bitOf ba (k - r) else bitOf ba k) t'"
      by auto
    have "Rotate ba n = Inr t'"
      using s left w a(1) t(1) t'(1)
      by (simp add: Rotate_def s_def [symmetric] r_def [symmetric])
    moreover have "bits_are ba ?G t'"
      using t'(2)
    proof (rule bits_are_cong)
      fix k assume "inStore ba k"
      show "(if 0 \<le> k \<and> k < r then bitOf a (k - 0)
             else if r \<le> k \<and> k < s then bitOf ba (k - r) else bitOf ba k) = ?G k"
      proof (cases "0 \<le> k \<and> k < r")
        case True
        then have "(k - r) mod s = k - r + s"
          using r by (intro mod_below) simp_all
        also have "\<dots> = s - r + k" by simp
        finally have e: "(k - r) mod s = s - r + k" .
        show ?thesis using True r a(4) [of k] by (simp add: e)
      next
        case False
        show ?thesis
        proof (cases "r \<le> k \<and> k < s")
          case True
          then have "(k - r) mod s = k - r"
            using left by (intro mod_pos_pos_trivial) simp_all
          then show ?thesis using True left by simp
        next
          case False
          then show ?thesis using \<open>\<not> (0 \<le> k \<and> k < r)\<close> left by auto
        qed
      qed
    qed
    ultimately show ?thesis by blast
  next
    case right
    define m where "m = - r"
    have m: "0 < m" "m < s" "r = - m" using right r by (simp_all add: m_def)
    have "int64 m" using s m by (simp add: int64_def)
    then have w: "wrap64 m = m" by (rule wrap64_id)
    from Slice_ok [OF v, of 0 m] obtain a
      where a: "Slice ba 0 m = Inr a" "bsize a = m" "valid a"
        "\<And>k. 0 \<le> k \<and> k < m \<Longrightarrow> bitOf a k = bitOf ba k"
      using m by (auto simp: s_def)
    from moveBits_neg [OF v, of m] obtain t
      where t: "moveBits ba (- m) = Inr (t, s - m, s)"
        "bits_are ba (\<lambda>k. if 0 \<le> k \<and> k < s - m then bitOf ba (k + m) else bitOf ba k) t"
      using m by (auto simp: s_def)
    have "\<exists>t'. for_up (\<lambda>i ba. andThen (get a (i - (s - m))) (put ba i)) (s - m) s t = Inr t'
            \<and> bits_are ba (\<lambda>k. if s - m \<le> k \<and> k < s then bitOf a (k - (s - m))
                 else if 0 \<le> k \<and> k < s - m then bitOf ba (k + m) else bitOf ba k) t'"
      using t(2)
    proof (rule fill_loop)
      show "s - m \<le> s" using m by simp
      fix j assume j: "s - m \<le> j" "j < s"
      have "inStore ba j" using j m by (intro valid_inStore [OF v]) (simp_all add: s_def)
      moreover have "inStore a (j - (s - m))"
        using j a(2) by (intro valid_inStore [OF a(3)]) simp_all
      ultimately show "inStore ba j \<and> inStore a (j - (s - m))" by blast
    qed
    then obtain t' where t': "for_up (\<lambda>i ba. andThen (get a (i - (s - m))) (put ba i)) (s - m) s t = Inr t'"
      "bits_are ba (\<lambda>k. if s - m \<le> k \<and> k < s then bitOf a (k - (s - m))
                 else if 0 \<le> k \<and> k < s - m then bitOf ba (k + m) else bitOf ba k) t'"
      by blast
    have "Rotate ba n = Inr t'"
      using s m w a(1) t(1) t'(1)
      by (simp add: Rotate_def s_def [symmetric] r_def [symmetric])
    moreover have "bits_are ba ?G t'"
      using t'(2)
    proof (rule bits_are_cong)
      fix k assume "inStore ba k"
      show "(if s - m \<le> k \<and> k < s then bitOf a (k - (s - m))
                 else if 0 \<le> k \<and> k < s - m then bitOf ba (k + m) else bitOf ba k) = ?G k"
      proof (cases "s - m \<le> k \<and> k < s")
        case True
        then have "(k + m) mod s = k + m - s"
          using m by (intro mod_above) simp_all
        also have "\<dots> = k - (s - m)" by simp
        finally have e: "(k + m) mod s = k - (s - m)" .
        show ?thesis using True m a(4) [of "k - (s - m)"] by (simp add: e)
      next
        case False
        show ?thesis
        proof (cases "0 \<le> k \<and> k < s - m")
          case True
          then have "(k + m) mod s = k + m"
            using m by (intro mod_pos_pos_trivial) simp_all
          then show ?thesis using True m by simp
        next
          case False
          then show ?thesis using \<open>\<not> (s - m \<le> k \<and> k < s)\<close> m by auto
        qed
      qed
    qed
    ultimately show ?thesis by blast
  qed
  then show ?thesis unfolding r_def s_def .
qed

section \<open>Concatenation loops\<close>

lemma modify_byte_ok:
  "0 \<le> i \<Longrightarrow> i < int (length (data ba))
   \<Longrightarrow> modify_byte ba i f = Inr (ba\<lparr>data := (data ba)[nat i := f (data ba ! nat i)]\<rparr>)"
  by (simp add: modify_byte_def)

lemma cond_copy_loop:
  assumes t: "bits_are z f t" and lohi: "lo \<le> hi"
    and range: "\<And>j. lo \<le> j \<Longrightarrow> j < hi \<Longrightarrow> inStore z j \<and> inStore a j \<and> \<not> f j"
  shows "\<exists>t'. for_up (\<lambda>i ba. andThen (get a i) (\<lambda>b. if b then set_idx ba i else Inr ba)) lo hi t
               = Inr t'
            \<and> bits_are z (\<lambda>k. if lo \<le> k \<and> k < hi then bitOf a k else f k) t'"
proof -
  let ?body = "\<lambda>i ba. andThen (get a i) (\<lambda>b. if b then set_idx ba i else Inr ba)"
  have "\<exists>t'. for_up ?body lo hi t = Inr t'
            \<and> bits_are t (\<lambda>k. if lo \<le> k \<and> k < hi then bitOf a k else bitOf t k) t'"
  proof (rule for_up_bits [OF lohi])
    fix j assume "lo \<le> j" "j < hi"
    then show "inStore t j" using range bits_are_inStore [OF t] by simp
  next
    fix j u assume j: "lo \<le> j" "j < hi"
      and u: "bits_are t (\<lambda>k. if lo \<le> k \<and> k < j then bitOf a k else bitOf t k) u"
    have tj: "inStore t j" using range [OF j] bits_are_inStore [OF t] by simp
    then have uj: "inStore u j" using bits_are_inStore [OF u] by simp
    have "bitOf u j = bitOf t j" using bits_are_bitOf [OF u tj] by simp
    also have "\<dots> = f j" using bits_are_bitOf [OF t] range [OF j] by simp
    finally have "\<not> bitOf u j" using range [OF j] by simp
    then show "?body j u = Inr (write_bit u j (bitOf a j))"
      using range [OF j] uj by (simp add: get_ok cond_set_idx)
  qed
  then obtain t' where t': "for_up ?body lo hi t = Inr t'"
    "bits_are t (\<lambda>k. if lo \<le> k \<and> k < hi then bitOf a k else bitOf t k) t'" by blast
  have "bits_are z (\<lambda>k. if lo \<le> k \<and> k < hi then bitOf a k else bitOf t k) t'"
    using t t'(2) by (rule bits_are_trans)
  then have "bits_are z (\<lambda>k. if lo \<le> k \<and> k < hi then bitOf a k else f k) t'"
    by (rule bits_are_cong) (simp add: bits_are_bitOf [OF t])
  with t'(1) show ?thesis by blast
qed

lemma copy_loop:
  assumes t: "bits_are z f t" and lohi: "lo \<le> hi"
    and range: "\<And>j. lo \<le> j \<Longrightarrow> j < hi \<Longrightarrow> inStore z j \<and> inStore a (j - lo) \<and> \<not> f j"
  shows "\<exists>t' c. for_up (\<lambda>i (ba, i2).
                 andThen (get a i2) (\<lambda>b.
                 andThen (if b then set_idx ba i else Inr ba) (\<lambda>ba.
                 Inr (ba, i2 + 1)))) lo hi (t, 0) = Inr (t', c)
            \<and> bits_are z (\<lambda>k. if lo \<le> k \<and> k < hi then bitOf a (k - lo) else f k) t'"
proof -
  define body where "body = (\<lambda>i (ba, i2).
                 andThen (get a i2) (\<lambda>b.
                 andThen (if b then set_idx ba i else Inr ba) (\<lambda>ba.
                 Inr (ba, i2 + (1::int)))))"
  define I where "I = (\<lambda>j (u :: BitArray \<times> int). snd u = j - lo
      \<and> bits_are z (\<lambda>k. if lo \<le> k \<and> k < j then bitOf a (k - lo) else f k) (fst u))"
  have "bits_are z (\<lambda>k. if lo \<le> k \<and> k < lo then bitOf a (k - lo) else f k) t"
    by (rule bits_are_cong [OF t]) auto
  then have init: "I lo (t, 0)"
    by (simp add: I_def)
  have step: "\<exists>u'. body j u = Inr u' \<and> I (j + 1) u'" if j: "lo \<le> j" "j < hi" and u: "I j u" for j u
  proof -
    obtain r c where ru: "u = (r, c)" by (cases u)
    from u ru have c: "c = j - lo"
      and r: "bits_are z (\<lambda>k. if lo \<le> k \<and> k < j then bitOf a (k - lo) else f k) r"
      by (simp_all add: I_def)
    have zj: "inStore z j" "inStore a (j - lo)" "\<not> f j" using range [OF j] by simp_all
    have rj: "inStore r j" using zj(1) bits_are_inStore [OF r] by simp
    have "bitOf r j = f j" using bits_are_bitOf [OF r zj(1)] by simp
    then have nb: "\<not> bitOf r j" using zj(3) by simp
    have b: "body j u = Inr (write_bit r j (bitOf a (j - lo)), c + 1)"
      using zj(2) cond_set_idx [OF rj nb] by (simp add: body_def ru c get_ok)
    have "bits_are z (\<lambda>k. if k = j then bitOf a (j - lo)
             else (if lo \<le> k \<and> k < j then bitOf a (k - lo) else f k))
            (write_bit r j (bitOf a (j - lo)))"
      using r zj(1) by (rule bits_are_write)
    then have "bits_are z (\<lambda>k. if lo \<le> k \<and> k < j + 1 then bitOf a (k - lo) else f k)
            (write_bit r j (bitOf a (j - lo)))"
      by (rule bits_are_cong) (use j in auto)
    then have "I (j + 1) (write_bit r j (bitOf a (j - lo)), c + 1)"
      by (simp add: I_def c)
    with b show ?thesis by blast
  qed
  from for_up_rule [of I lo "(t, 0)" hi body, OF init step]
  obtain u where u: "for_up body lo hi (t, 0) = Inr u" "I (max lo hi) u" by blast
  obtain t' c where tc: "u = (t', c)" by (cases u)
  have "max lo hi = hi" using lohi by simp
  with u tc show ?thesis
    unfolding body_def I_def by auto
qed

lemma bytes_copy_loop:
  assumes n: "0 \<le> n" "n \<le> int (length (data z))" "n \<le> int (length (data a))"
  shows "\<exists>t. for_up (\<lambda>i ba.
                 if i < 0 \<or> int (length (data a)) \<le> i then Inl RuntimePanic
                 else modify_byte ba i (\<lambda>_. data a ! nat i)) 0 n z = Inr t
           \<and> bsize t = bsize z \<and> length (data t) = length (data z)
           \<and> (\<forall>m < length (data z). data t ! m = (if int m < n then data a ! m else data z ! m))"
proof -
  define body where "body = (\<lambda>i ba.
                 if i < 0 \<or> int (length (data a)) \<le> i then Inl RuntimePanic
                 else modify_byte ba i (\<lambda>_. data a ! nat i))"
  define I where "I = (\<lambda>j (t :: BitArray). bsize t = bsize z \<and> length (data t) = length (data z)
      \<and> (\<forall>m < length (data z). data t ! m = (if int m < j then data a ! m else data z ! m)))"
  have init: "I 0 z" by (simp add: I_def)
  have step: "\<exists>t'. body j t = Inr t' \<and> I (j + 1) t'" if j: "0 \<le> j" "j < n" and t: "I j t" for j t
  proof -
    let ?t' = "t\<lparr>data := (data t)[nat j := data a ! nat j]\<rparr>"
    have len: "length (data t) = length (data z)" using t by (simp add: I_def)
    have "body j t = Inr ?t'"
      using j n len by (simp add: body_def modify_byte_ok)
    moreover have "I (j + 1) ?t'"
      unfolding I_def
    proof (intro conjI allI impI)
      show "bsize ?t' = bsize z" using t by (simp add: I_def)
      show "length (data ?t') = length (data z)" using len by simp
      fix m assume m: "m < length (data z)"
      show "data ?t' ! m = (if int m < j + 1 then data a ! m else data z ! m)"
      proof (cases "m = nat j")
        case True
        then show ?thesis using m len j by simp
      next
        case False
        then have "int m < j + 1 \<longleftrightarrow> int m < j" using j by auto
        then show ?thesis using False m t by (simp add: I_def)
      qed
    qed
    ultimately show ?thesis by blast
  qed
  from for_up_rule [of I 0 z n body, OF init step]
  obtain t where "for_up body 0 n z = Inr t" "I (max 0 n) t" by blast
  moreover have "max 0 n = n" using n by simp
  ultimately show ?thesis unfolding body_def I_def by auto
qed


lemma div8_less: "(k::int) div 8 < n \<longleftrightarrow> k < 8 * n"
proof -
  have e: "8 * (k div 8) + k mod 8 = k" by simp
  have b: "0 \<le> k mod 8" "k mod 8 < 8" by simp_all
  show ?thesis
  proof
    assume "k div 8 < n"
    then show "k < 8 * n" using e b by linarith
  next
    assume "k < 8 * n"
    then show "k div 8 < n" using e b by linarith
  qed
qed

lemma Concat_ok:
  assumes va: "valid a" and vb: "valid b" and sum: "bsize a + bsize b < 2 ^ 63"
  shows "\<exists>t. Concat a b = Inr t \<and> bsize t = bsize a + bsize b \<and> valid t
           \<and> (\<forall>k. 0 \<le> k \<and> k < bsize b \<longrightarrow> bitOf t k = bitOf b k)
           \<and> (\<forall>k. bsize b \<le> k \<and> k < bsize a + bsize b \<longrightarrow> bitOf t k = bitOf a (k - bsize b))"
proof -
  define s1 where "s1 = bsize a"
  define s2 where "s2 = bsize b"
  define n where "n = s2 div 8"
  define z where "z = \<lparr>bsize = s1 + s2, data = replicate (nat ((s1 + s2 + 7) div 8)) 0\<rparr>"
  have s: "0 < s1" "0 < s2" "s1 + s2 < 2 ^ 63"
    using va vb sum by (simp_all add: valid_def s1_def s2_def)
  have "int64 (s1 + s2)" using s by (simp add: int64_def)
  then have w: "wrap64 (s1 + s2) = s1 + s2" by (rule wrap64_id)
  have new: "New (s1 + s2) [] = Inr z"
    using s unfolding z_def by (intro New_empty) simp
  have vz: "valid z"
    using s unfolding z_def by (intro valid_zeros) simp_all
  have zz: "\<not> bitOf z k" if "inStore z k" for k
    using that unfolding z_def by (rule bitOf_zeros)
  have lz: "int (length (data z)) = (s1 + s2 + 7) div 8" "bsize z = s1 + s2"
    using s by (simp_all add: z_def)
  have lb: "int (length (data b)) = (s2 + 7) div 8"
    using vb by (simp add: valid_def s2_def)
  have n: "0 \<le> n" "8 * n \<le> s2" "s2 < 8 * n + 8"
    using s by (simp_all add: n_def)
  have nz: "n \<le> int (length (data z))"
    unfolding lz n_def using s by (intro zdiv_mono1) simp_all
  have nb: "n \<le> int (length (data b))"
    unfolding lb n_def by (intro zdiv_mono1) simp_all
  have inz: "inStore z k" if "0 \<le> k" "k < s1 + s2" for k
    using that lz(2) by (intro valid_inStore [OF vz]) simp_all
  have inb: "inStore b k" if "0 \<le> k" "k < s2" for k
    using that by (intro valid_inStore [OF vb]) (simp_all add: s2_def)
  have ina: "inStore a k" if "0 \<le> k" "k < s1" for k
    using that by (intro valid_inStore [OF va]) (simp_all add: s1_def)
  \<comment> \<open>the full bytes of \<open>b\<close>\<close>
  from bytes_copy_loop [OF n(1) nz nb] obtain t1
    where t1: "for_up (\<lambda>i ba.
                 if i < 0 \<or> int (length (data b)) \<le> i then Inl RuntimePanic
                 else modify_byte ba i (\<lambda>_. data b ! nat i)) 0 n z = Inr t1"
      "bsize t1 = bsize z" "length (data t1) = length (data z)"
      "\<And>m. m < length (data z) \<Longrightarrow> data t1 ! m = (if int m < n then data b ! m else data z ! m)"
    by blast
  define f1 where "f1 = (\<lambda>k. k < 8 * n \<and> bitOf b k)"
  have b1: "bits_are z f1 t1"
    unfolding bits_are_def
  proof (intro conjI allI impI)
    show "bsize t1 = bsize z" "length (data t1) = length (data z)" by fact+
    fix k assume k: "inStore z k"
    have m: "nat (k div 8) < length (data z)" "0 \<le> k div 8"
      using inStore_div [OF k] by (simp_all add: nat_less_iff)
    have lt: "int (nat (k div 8)) < n \<longleftrightarrow> k < 8 * n"
      using m(2) by (simp add: div8_less)
    show "bitOf t1 k = f1 k"
    proof (cases "k < 8 * n")
      case True
      then show ?thesis using t1(4) [OF m(1)] lt by (simp add: bitOf_def f1_def)
    next
      case False
      have "\<not> bitOf z k" using k by (rule zz)
      then show ?thesis using False t1(4) [OF m(1)] lt by (simp add: bitOf_def f1_def)
    qed
  qed
  \<comment> \<open>the remaining bits of \<open>b\<close>\<close>
  have "\<exists>t'. for_up (\<lambda>i ba. andThen (get b i) (\<lambda>b. if b then set_idx ba i else Inr ba))
                 (8 * n) s2 t1 = Inr t'
            \<and> bits_are z (\<lambda>k. if 8 * n \<le> k \<and> k < s2 then bitOf b k else f1 k) t'"
    using b1
  proof (rule cond_copy_loop)
    show "8 * n \<le> s2" by fact
    fix j assume j: "8 * n \<le> j" "j < s2"
    have "0 \<le> j" "j < s1 + s2" using j n s by linarith+
    then show "inStore z j \<and> inStore b j \<and> \<not> f1 j"
      using j inz [of j] inb [of j] by (simp add: f1_def)
  qed
  then obtain t2
    where t2: "for_up (\<lambda>i ba. andThen (get b i) (\<lambda>b. if b then set_idx ba i else Inr ba))
                 (8 * n) s2 t1 = Inr t2"
      "bits_are z (\<lambda>k. if 8 * n \<le> k \<and> k < s2 then bitOf b k else f1 k) t2"
    by blast
  have sz2: "bsize t2 = s1 + s2" using t2(2) lz(2) by (simp add: bits_are_def)
  \<comment> \<open>the bits of \<open>a\<close>\<close>
  have "\<exists>t' c. for_up (\<lambda>i (ba, i2).
                 andThen (get a i2) (\<lambda>b.
                 andThen (if b then set_idx ba i else Inr ba) (\<lambda>ba.
                 Inr (ba, i2 + 1)))) s2 (s1 + s2) (t2, 0) = Inr (t', c)
            \<and> bits_are z (\<lambda>k. if s2 \<le> k \<and> k < s1 + s2 then bitOf a (k - s2)
                 else if 8 * n \<le> k \<and> k < s2 then bitOf b k else f1 k) t'"
    using t2(2)
  proof (rule copy_loop)
    show "s2 \<le> s1 + s2" using s by simp
    fix j assume j: "s2 \<le> j" "j < s1 + s2"
    have "0 \<le> j" "0 \<le> j - s2" "j - s2 < s1" "\<not> j < 8 * n" using j n s by linarith+
    then show "inStore z j \<and> inStore a (j - s2)
        \<and> \<not> (if 8 * n \<le> j \<and> j < s2 then bitOf b j else f1 j)"
      using j inz [of j] ina [of "j - s2"] by (simp add: f1_def)
  qed
  then obtain t3 c
    where t3: "for_up (\<lambda>i (ba, i2).
                 andThen (get a i2) (\<lambda>b.
                 andThen (if b then set_idx ba i else Inr ba) (\<lambda>ba.
                 Inr (ba, i2 + 1)))) s2 (s1 + s2) (t2, 0) = Inr (t3, c)"
      "bits_are z (\<lambda>k. if s2 \<le> k \<and> k < s1 + s2 then bitOf a (k - s2)
                 else if 8 * n \<le> k \<and> k < s2 then bitOf b k else f1 k) t3"
    by blast
  have "s2 sdiv 8 = n" using s by (simp add: n_def sdiv_nonneg)
  then have res: "Concat a b = Inr t3"
    using w new t1(1) t2(1) t3(1) sz2
    by (simp add: Concat_def s1_def [symmetric] s2_def [symmetric] Let_def mult.commute)
  have sz3: "bsize t3 = s1 + s2" using t3(2) lz(2) by (simp add: bits_are_def)
  have v3: "valid t3"
    using t3(2) vz
  proof (rule bits_are_valid)
    fix k assume k: "bsize z \<le> k" "inStore z k"
    have "\<not> k < s1 + s2" "\<not> k < s2" "\<not> k < 8 * n" using k(1) n s lz(2) by linarith+
    then show "\<not> (if s2 \<le> k \<and> k < s1 + s2 then bitOf a (k - s2)
                 else if 8 * n \<le> k \<and> k < s2 then bitOf b k else f1 k)"
      by (simp add: f1_def)
  qed
  have low: "bitOf t3 k = bitOf b k" if "0 \<le> k \<and> k < s2" for k
  proof -
    have "inStore z k" using that s by (intro inz) linarith+
    then show ?thesis
      using bits_are_bitOf [OF t3(2), of k] that by (auto simp: f1_def)
  qed
  have high: "bitOf t3 k = bitOf a (k - s2)" if "s2 \<le> k \<and> k < s1 + s2" for k
  proof -
    have "inStore z k" using that s by (intro inz) linarith+
    then show ?thesis
      using bits_are_bitOf [OF t3(2), of k] that by simp
  qed
  show ?thesis
    using res sz3 v3 low high unfolding s1_def s2_def by blast
qed

section \<open>Binary formatting\<close>

lemma digits_Suc:
  fixes n :: nat
  shows "map (\<lambda>k. digit (bit n (Suc w - 1 - k))) [0..<Suc w]
         = map (\<lambda>k. digit (bit (n div 2) (w - 1 - k))) [0..<w] @ [digit (odd n)]"
proof -
  have "map (\<lambda>k. digit (bit n (Suc w - 1 - k))) [0..<w]
        = map (\<lambda>k. digit (bit (n div 2) (w - 1 - k))) [0..<w]"
  proof (rule map_cong [OF refl])
    fix k assume "k \<in> set [0..<w]"
    then have "Suc w - 1 - k = Suc (w - 1 - k)" by auto
    then show "digit (bit n (Suc w - 1 - k)) = digit (bit (n div 2) (w - 1 - k))"
      by (simp add: bit_Suc)
  qed
  then show ?thesis by (simp add: bit_0)
qed

lemma digits_zero: "map (\<lambda>k. digit (bit (0::nat) (w - 1 - k))) [0..<w] = replicate w CHR ''0''"
  by (simp add: digit_def map_replicate_const)

lemma FormatBits_small: "n < 2 \<Longrightarrow> FormatBits n = [digit (odd n)]"
  by (subst FormatBits.simps) (auto simp: digit_def)

lemma FormatBits_large:
  "\<not> n < 2 \<Longrightarrow> FormatBits n = FormatBits (n div 2) @ [digit (odd n)]"
  by (subst FormatBits.simps) (auto simp: digit_def)

lemma FormatBits_pad:
  "0 < w \<Longrightarrow> n < 2 ^ w
   \<Longrightarrow> length (FormatBits n) \<le> w
     \<and> replicate (w - length (FormatBits n)) CHR ''0'' @ FormatBits n
       = map (\<lambda>k. digit (bit n (w - 1 - k))) [0..<w]"
proof (induction w arbitrary: n)
  case 0
  then show ?case by simp
next
  case (Suc w)
  show ?case
  proof (cases "n < 2")
    case True
    then have z: "n div 2 = 0" by simp
    have "map (\<lambda>k. digit (bit n (Suc w - 1 - k))) [0..<Suc w]
          = map (\<lambda>k. digit (bit (n div 2) (w - 1 - k))) [0..<w] @ [digit (odd n)]"
      by (rule digits_Suc)
    also have "\<dots> = map (\<lambda>k. digit (bit (0::nat) (w - 1 - k))) [0..<w] @ [digit (odd n)]"
      by (simp only: z)
    also have "\<dots> = replicate w CHR ''0'' @ [digit (odd n)]"
      unfolding digits_zero ..
    finally have "map (\<lambda>k. digit (bit n (Suc w - 1 - k))) [0..<Suc w]
               = replicate w CHR ''0'' @ [digit (odd n)]" .
    then show ?thesis using True by (simp add: FormatBits_small)
  next
    case False
    then have w: "0 < w" using Suc.prems(2) by (cases w) auto
    have "n div 2 < 2 ^ w" using Suc.prems(2) by simp
    from Suc.IH [OF w this]
    have ih: "length (FormatBits (n div 2)) \<le> w"
      "replicate (w - length (FormatBits (n div 2))) CHR ''0'' @ FormatBits (n div 2)
       = map (\<lambda>k. digit (bit (n div 2) (w - 1 - k))) [0..<w]"
      by simp_all
    have "replicate (Suc w - length (FormatBits n)) CHR ''0'' @ FormatBits n
          = (replicate (w - length (FormatBits (n div 2))) CHR ''0'' @ FormatBits (n div 2))
            @ [digit (odd n)]"
      using False by (simp add: FormatBits_large)
    also have "\<dots> = map (\<lambda>k. digit (bit n (Suc w - 1 - k))) [0..<Suc w]"
      unfolding ih(2) by (rule digits_Suc [symmetric])
    finally show ?thesis using ih(1) False by (simp add: FormatBits_large)
  qed
qed

lemma upper_bits_bound:
  fixes x :: u8
  assumes "\<And>j. w \<le> j \<Longrightarrow> \<not> bit x j"
  shows "unat x < 2 ^ w"
proof -
  have "take_bit w (unat x) = unat x"
  proof (rule bit_eqI)
    fix j
    show "bit (take_bit w (unat x)) j = bit (unat x) j"
      using assms [of j] by (cases "w \<le> j") (auto simp: bit_take_bit_iff bit_unsigned_iff)
  qed
  then show ?thesis by (simp add: take_bit_nat_eq_self_iff)
qed

lemma Sprintf_0b_digits:
  fixes x :: u8
  assumes "0 < w" "\<And>j. w \<le> j \<Longrightarrow> \<not> bit x j"
  shows "Sprintf_0b (int w) x = map (\<lambda>k. digit (bit x (w - 1 - k))) [0..<w]"
proof -
  have "unat x < 2 ^ w" using assms(2) by (rule upper_bits_bound)
  from FormatBits_pad [OF assms(1) this]
  show ?thesis by (simp add: Sprintf_0b_def bit_unsigned_iff)
qed

lemma Sprintf_0b_8:
  fixes x :: u8
  shows "Sprintf_0b 8 x = map (\<lambda>k. digit (bit x (7 - k))) [0..<8]"
proof -
  have "\<not> bit x j" if "8 \<le> j" for j
    using that bit_imp_le_length [of x j] by auto
  then have "Sprintf_0b (int 8) x = map (\<lambda>k. digit (bit x (8 - 1 - k))) [0..<8]"
    by (intro Sprintf_0b_digits) simp_all
  then show ?thesis by simp
qed

section \<open>The text of a vector\<close>

lemma bitOf_split:
  "0 \<le> q \<Longrightarrow> 0 \<le> r \<Longrightarrow> r < 8 \<Longrightarrow> bitOf ba (8 * q + r) = bit (data ba ! nat q) (nat r)"
proof -
  assume a: "0 \<le> q" "0 \<le> r" "r < 8"
  have "(8 * q + r) div 8 = q" using a by (intro int_div_pos_eq) simp_all
  moreover have "(8 * q + r) mod 8 = r" using a by (intro int_mod_pos_eq) simp_all
  ultimately show ?thesis by (simp add: bitOf_def)
qed

lemma valid_size_split:
  assumes v: "valid ba"
  shows "1 \<le> int (length (data ba))
       \<and> bsize ba = 8 * (int (length (data ba)) - 1)
                     + (if bsize ba mod 8 = 0 then 8 else bsize ba mod 8)"
proof -
  define s where "s = bsize ba"
  define L where "L = int (length (data ba))"
  have s: "0 < s" and l: "L = (s + 7) div 8"
    using v by (simp_all add: valid_def L_def s_def)
  have c: "(if 0 < s mod 8 then s div 8 + 1 else s div 8) = L"
    unfolding l by (rule ceil8)
  have m: "0 \<le> s mod 8" "s mod 8 < 8" by simp_all
  have e: "8 * (s div 8) + s mod 8 = s" by simp
  have "1 \<le> L \<and> s = 8 * (L - 1) + (if s mod 8 = 0 then 8 else s mod 8)"
  proof (cases "s mod 8 = 0")
    case True
    then have "L = s div 8" "s = 8 * (s div 8)" using c e by simp_all
    then show ?thesis using True s by simp
  next
    case False
    then have "0 < s mod 8" using m by simp
    then have "L = s div 8 + 1" using c by simp
    moreover have "0 \<le> s div 8" using s by simp
    ultimately show ?thesis using False e by simp
  qed
  then show ?thesis unfolding s_def L_def .
qed

lemma String_ok:
  assumes v: "valid ba"
  shows "String ba = Inr (bitString ba)"
proof -
  define s where "s = bsize ba"
  define L where "L = int (length (data ba))"
  define n where "n = (if s mod 8 = 0 then 8 else s mod 8)"
  define f where "f = (\<lambda>k. digit (bitOf ba (s - 1 - int k)))"
  define seg where "seg = (\<lambda>j. map f [0..<nat (s - 8 * (j + 1))])"
  have "1 \<le> L \<and> s = 8 * (L - 1) + n"
    using valid_size_split [OF v] unfolding s_def L_def n_def .
  then have sp: "1 \<le> L" "s = 8 * (L - 1) + n" by blast+
  have nb: "0 < n" "n \<le> 8"
    using pos_mod_bound [of 8 s] pos_mod_sign [of 8 s] by (auto simp: n_def)
  have s0: "0 < s" using v by (simp add: valid_def s_def)
  have smod: "s smod 8 = s mod 8" using s0 by (simp add: smod_nonneg)
  \<comment> \<open>the final byte, printed with \<open>n\<close> digits\<close>
  let ?x = "data ba ! nat (L - 1)"
  have hi: "\<not> bit ?x j" if j: "nat n \<le> j" for j
  proof (cases "j < 8")
    case True
    have "bitOf ba (8 * (L - 1) + int j) = bit ?x (nat (int j))"
      using sp nb True by (intro bitOf_split) simp_all
    moreover have "\<not> bitOf ba (8 * (L - 1) + int j)"
    proof (rule valid_padding [OF v])
      show "bsize ba \<le> 8 * (L - 1) + int j" using sp nb j by (simp add: s_def)
      show "inStore ba (8 * (L - 1) + int j)"
        using sp nb True by (simp add: inStore_def L_def)
    qed
    ultimately show ?thesis by simp
  next
    case False
    then show ?thesis using bit_imp_le_length [of ?x j] by auto
  qed
  have "Sprintf_0b (int (nat n)) ?x = map (\<lambda>k. digit (bit ?x (nat n - 1 - k))) [0..<nat n]"
    using sp nb hi by (intro Sprintf_0b_digits) simp_all
  also have "\<dots> = map f [0..<nat n]"
  proof (rule map_cong [OF refl])
    fix k assume "k \<in> set [0..<nat n]"
    then have k: "int k < n" by simp
    have e1: "s - 1 - int k = 8 * (L - 1) + (n - 1 - int k)" using sp nb by simp
    have e2: "bitOf ba (8 * (L - 1) + (n - 1 - int k)) = bit ?x (nat (n - 1 - int k))"
      using sp nb k by (intro bitOf_split) simp_all
    have e3: "nat (n - 1 - int k) = nat n - 1 - k" using k by simp
    have "f k = digit (bit ?x (nat n - 1 - k))"
      by (simp only: f_def e1 e2 e3)
    then show "digit (bit ?x (nat n - 1 - k)) = f k" by (rule sym)
  qed
  finally have first: "Sprintf_0b n ?x = seg (L - 2)"
    using sp nb by (simp add: seg_def)
  \<comment> \<open>each further byte, printed with 8 digits\<close>
  have step: "seg j @ Sprintf_0b 8 (data ba ! nat j) = seg (j - 1)" if j: "0 \<le> j" "j \<le> L - 2" for j
  proof -
    define a where "a = nat (s - 8 * (j + 1))"
    have a: "int a = s - 8 * (j + 1)" using sp nb j by (simp add: a_def)
    have n8: "nat (s - 8 * (j - 1 + 1)) = a + 8" using a by (simp add: nat_eq_iff)
    have u1: "[0..<a + 8] = [0..<a] @ [a..<a + 8]"
      by (rule upt_add_eq_append) simp
    have u2: "[a..<a + 8] = map (\<lambda>i. i + a) [0..<8]"
      by (simp only: map_add_upt add.commute [of a 8])
    have "seg (j - 1) = map f [0..<a] @ map f [a..<a + 8]"
      by (simp only: seg_def n8 u1 map_append)
    also have "map f [a..<a + 8] = map (\<lambda>k. f (a + k)) [0..<8]"
      by (simp only: u2 map_map o_def add.commute [of _ a])
    also have "\<dots> = map (\<lambda>k. digit (bit (data ba ! nat j) (7 - k))) [0..<8]"
    proof (rule map_cong [OF refl])
      fix k assume "k \<in> set [0..<8]"
      then have k: "k < 8" by simp
      have e1: "s - 1 - int (a + k) = 8 * j + (7 - int k)" using a by simp
      have e2: "bitOf ba (8 * j + (7 - int k)) = bit (data ba ! nat j) (nat (7 - int k))"
        using j k by (intro bitOf_split) simp_all
      have e3: "nat (7 - int k) = 7 - k" using k by simp
      show "f (a + k) = digit (bit (data ba ! nat j) (7 - k))"
        by (simp only: f_def e1 e2 e3)
    qed
    also have "\<dots> = Sprintf_0b 8 (data ba ! nat j)" by (rule Sprintf_0b_8 [symmetric])
    finally show ?thesis by (simp add: seg_def a_def)
  qed
  have loop: "\<exists>t. for_down (\<lambda>i s. Inr (s @ Sprintf_0b 8 (data ba ! nat i))) (L - 2) 0 (seg (L - 2))
                = Inr t \<and> t = seg (min (L - 2) (0 - 1))"
  proof (rule for_down_rule [where I = "\<lambda>j t. t = seg j"])
    show "seg (L - 2) = seg (L - 2)" ..
    fix j t assume "0 \<le> j" "j \<le> L - 2" "t = seg j"
    then show "\<exists>t'. Inr (t @ Sprintf_0b 8 (data ba ! nat j)) = Inr t' \<and> t' = seg (j - 1)"
      using step by simp
  qed
  have "seg (- 1) = bitString ba"
    by (simp add: seg_def f_def bitString_def s_def)
  have nn: "(if bsize ba smod 8 = 0 then 8 else bsize ba smod 8) = n"
    unfolding n_def s_def smod [unfolded s_def] ..
  have l1: "\<not> int (length (data ba)) - 1 < 0" using sp(1) unfolding L_def by linarith
  have "String ba = (if 1 < L
            then for_down (\<lambda>i s. Inr (s @ Sprintf_0b 8 (data ba ! nat i))) (L - 2) 0
                   (Sprintf_0b n (data ba ! nat (L - 1)))
            else Inr (Sprintf_0b n (data ba ! nat (L - 1))))"
    unfolding String_def Let_def nn L_def using l1 by simp
  then have S: "String ba = (if 1 < L
            then for_down (\<lambda>i s. Inr (s @ Sprintf_0b 8 (data ba ! nat i))) (L - 2) 0 (seg (L - 2))
            else Inr (seg (L - 2)))"
    by (simp only: first)
  have "String ba = Inr (seg (- 1))"
  proof (cases "1 < L")
    case True
    then have "min (L - 2) (0 - 1) = - 1" by simp
    with loop have "for_down (\<lambda>i s. Inr (s @ Sprintf_0b 8 (data ba ! nat i))) (L - 2) 0 (seg (L - 2))
                = Inr (seg (- 1))" by simp
    then show ?thesis using True by (simp only: S if_True)
  next
    case False
    then have "L - 2 = - 1" using sp(1) by simp
    then show ?thesis using False by (simp only: S if_False)
  qed
  with \<open>seg (- 1) = bitString ba\<close> show ?thesis by simp
qed

section \<open>Parsing\<close>

lemma Parse_ok:
  assumes rs: "rs = filter (\<lambda>c. c \<noteq> CHR '' '') s"
    and ne: "rs \<noteq> []" and dig: "set rs \<subseteq> {CHR ''0'', CHR ''1''}"
    and len: "int (length rs) < 2 ^ 63"
  shows "\<exists>t. Parse s = Inr t \<and> bsize t = int (length rs) \<and> valid t
           \<and> (\<forall>k. 0 \<le> k \<and> k < int (length rs)
                 \<longrightarrow> bitOf t k = (rs ! nat (int (length rs) - 1 - k) = CHR ''1''))"
proof -
  define n where "n = int (length rs)"
  define z where "z = \<lparr>bsize = n, data = replicate (nat ((n + 7) div 8)) 0\<rparr>"
  define F where "F = (\<lambda>i k. n - i \<le> k \<and> k < n \<and> rs ! nat (n - 1 - k) = CHR ''1'')"
  define body where "body = (\<lambda>i ba.
               if rs ! nat i = CHR ''1'' then set_idx ba (n - 1 - i)
               else if rs ! nat i \<noteq> CHR ''0''
                 then Inl (Error (''unknown character: '' @ [rs ! nat i]))
               else Inr ba)"
  have n: "0 < n" "n < 2 ^ 63" using ne len by (simp_all add: n_def)
  have new: "New n [] = Inr z"
    using n unfolding z_def by (intro New_empty)
  have vz: "valid z"
    using n unfolding z_def by (intro valid_zeros)
  have zz: "\<not> bitOf z k" if "inStore z k" for k
    using that unfolding z_def by (rule bitOf_zeros)
  have bz: "bsize z = n" by (simp add: z_def)
  have inz: "inStore z k" if "0 \<le> k" "k < n" for k
    using that bz by (intro valid_inStore [OF vz]) simp_all
  have init: "bits_are z (F 0) z"
    by (rule bits_are_cong [OF bits_are_refl]) (use zz in \<open>auto simp: F_def\<close>)
  have step: "\<exists>t'. body i t = Inr t' \<and> bits_are z (F (i + 1)) t'"
    if i: "0 \<le> i" "i < n" and t: "bits_are z (F i) t" for i t
  proof -
    have "rs ! nat i \<in> set rs" using i by (simp add: n_def)
    then have c: "rs ! nat i = CHR ''0'' \<or> rs ! nat i = CHR ''1''" using dig by auto
    have p: "inStore z (n - 1 - i)" using i by (intro inz) simp_all
    then have pt: "inStore t (n - 1 - i)" using bits_are_inStore [OF t] by simp
    have e: "nat (n - 1 - (n - 1 - i)) = nat i" by simp
    show ?thesis
    proof (cases "rs ! nat i = CHR ''1''")
      case True
      have "body i t = Inr (write_bit t (n - 1 - i) True)"
        using True pt by (simp add: body_def set_idx_ok)
      moreover have "bits_are z (\<lambda>k. if k = n - 1 - i then True else F i k)
                       (write_bit t (n - 1 - i) True)"
        using t p by (rule bits_are_write)
      then have "bits_are z (F (i + 1)) (write_bit t (n - 1 - i) True)"
        by (rule bits_are_cong) (use i True e in \<open>auto simp: F_def\<close>)
      ultimately show ?thesis by blast
    next
      case False
      then have z0: "rs ! nat i = CHR ''0''" using c by simp
      have "body i t = Inr t"
        using z0 by (simp add: body_def)
      moreover have "bits_are z (F (i + 1)) t"
        using t
      proof (rule bits_are_cong)
        fix k assume "inStore z k"
        show "F i k = F (i + 1) k"
        proof (cases "k = n - 1 - i")
          case True
          then show ?thesis using i False e by (simp add: F_def)
        next
          case False
          then show ?thesis by (auto simp: F_def)
        qed
      qed
      ultimately show ?thesis by blast
    qed
  qed
  from for_up_rule [of "\<lambda>i. bits_are z (F i)" 0 z n body, OF init step]
  obtain t where t: "for_up body 0 n z = Inr t" "bits_are z (F (max 0 n)) t" by blast
  have t2: "bits_are z (F n) t" using t(2) n by (simp add: max_def)
  have "Parse s = Inr t"
    using new t(1) unfolding Parse_def rs [symmetric] Let_def n_def [symmetric] body_def
    by simp
  moreover have "bsize t = n" using t2 bz by (simp add: bits_are_def)
  moreover have "valid t"
    using t2 vz by (rule bits_are_valid) (simp add: F_def bz)
  moreover have "bitOf t k = (rs ! nat (n - 1 - k) = CHR ''1'')" if "0 \<le> k \<and> k < n" for k
    using bits_are_bitOf [OF t2, of k] inz [of k] that by (simp add: F_def)
  ultimately show ?thesis unfolding n_def by blast
qed

lemma length_bitString [simp]: "length (bitString ba) = nat (bsize ba)"
  by (simp add: bitString_def)

lemma nth_bitString:
  "k < nat (bsize ba) \<Longrightarrow> bitString ba ! k = digit (bitOf ba (bsize ba - 1 - int k))"
  by (simp add: bitString_def)

lemma set_bitString: "set (bitString ba) \<subseteq> {CHR ''0'', CHR ''1''}"
  by (auto simp: bitString_def digit_def)

lemma Parse_bitString:
  assumes v: "valid v"
  shows "Parse (bitString v) = Inr v"
proof -
  define rs where "rs = bitString v"
  have s: "0 < bsize v" "bsize v < 2 ^ 63" using v by (simp_all add: valid_def)
  have "filter (\<lambda>c. c \<noteq> CHR '' '') (bitString v) = bitString v"
    using set_bitString [of v] by (auto simp: filter_id_conv)
  then have f: "rs = filter (\<lambda>c. c \<noteq> CHR '' '') (bitString v)"
    by (simp add: rs_def)
  have l: "int (length rs) = bsize v" using s by (simp add: rs_def)
  have ne: "rs \<noteq> []" using l s by auto
  from Parse_ok [OF f ne] obtain t
    where t: "Parse (bitString v) = Inr t" "bsize t = bsize v" "valid t"
      "\<And>k. 0 \<le> k \<and> k < bsize v \<Longrightarrow> bitOf t k = (rs ! nat (bsize v - 1 - k) = CHR ''1'')"
    using set_bitString [of v] s l unfolding rs_def [symmetric] by auto
  have "t = v"
  proof (rule BitArray_eqI)
    show "bsize t = bsize v" by fact
    show "length (data t) = length (data v)"
      using t(2,3) v by (simp add: valid_def)
    then have st: "inStore t j = inStore v j" for j by (simp add: inStore_def)
    fix j assume j: "inStore t j"
    show "bitOf t j = bitOf v j"
    proof (cases "j < bsize v")
      case True
      have j0: "0 \<le> j" using j by (simp add: inStore_def)
      have "nat (bsize v - 1 - j) < nat (bsize v)" using True j0 by simp
      then have "rs ! nat (bsize v - 1 - j) = digit (bitOf v (bsize v - 1 - int (nat (bsize v - 1 - j))))"
        unfolding rs_def by (rule nth_bitString)
      also have "bsize v - 1 - int (nat (bsize v - 1 - j)) = j" using True j0 by simp
      finally have "rs ! nat (bsize v - 1 - j) = digit (bitOf v j)" .
      then show ?thesis using t(4) [of j] True j0 by (simp add: digit_def)
    next
      case False
      then have "\<not> bitOf t j" "\<not> bitOf v j"
        using valid_padding [OF t(3), of j] valid_padding [OF v, of j] j st t(2) by simp_all
      then show ?thesis by simp
    qed
  qed
  with t(1) show ?thesis by simp
qed

section \<open>Byte loops\<close>

lemma for_up_snoc:
  "lo \<le> hi \<Longrightarrow> for_up body lo (hi + 1) s = andThen (for_up body lo hi s) (body hi)"
proof (induction body lo hi s rule: for_up.induct)
  case (1 body i hi s)
  show ?case
  proof (cases "i < hi")
    case True
    have l: "for_up body i (hi + 1) s
             = (case body i s of Inl e \<Rightarrow> Inl e | Inr s' \<Rightarrow> for_up body (i + 1) (hi + 1) s')"
      by (subst for_up.simps) (use True in simp)
    have r: "for_up body i hi s
             = (case body i s of Inl e \<Rightarrow> Inl e | Inr s' \<Rightarrow> for_up body (i + 1) hi s')"
      by (subst for_up.simps) (use True in simp)
    show ?thesis
    proof (cases "body i s")
      case (Inl e)
      then show ?thesis by (simp add: l r)
    next
      case (Inr s')
      have "for_up body (i + 1) (hi + 1) s' = andThen (for_up body (i + 1) hi s') (body hi)"
        using "1.IH" [OF True Inr] True by simp
      then show ?thesis using Inr by (simp add: l r)
    qed
  next
    case False
    then have e: "i = hi" using "1.prems" by simp
    have "for_up body hi (hi + 1) s = body hi s"
      by (subst for_up.simps) (simp add: for_up_empty split: sum.splits)
    then show ?thesis by (simp add: e for_up_empty)
  qed
qed

lemma update_ok: "f (st p) = Inr x \<Longrightarrow> update p f st = Inr (st(p := x))"
  by (simp add: update_def)




section \<open>Bit loops on the store\<close>


section \<open>The binary operators\<close>


















section \<open>Complement and whole-vector writes\<close>




section \<open>Validity is preserved\<close>

lemma for_up_preserves:
  assumes "P s"
    and "\<And>j t t'. lo \<le> j \<Longrightarrow> j < hi \<Longrightarrow> P t \<Longrightarrow> body j t = Inr t' \<Longrightarrow> P t'"
    and "for_up body lo hi s = Inr t"
  shows "P t"
  using assms
proof (induction body lo hi s rule: for_up.induct)
  case (1 body i hi s)
  show ?case
  proof (cases "i < hi")
    case True
    have u: "for_up body i hi s
             = (case body i s of Inl e \<Rightarrow> Inl e | Inr s' \<Rightarrow> for_up body (i + 1) hi s')"
      by (subst for_up.simps) (use True in simp)
    with "1.prems"(3) obtain s' where s': "body i s = Inr s'" "for_up body (i + 1) hi s' = Inr t"
      by (cases "body i s") simp_all
    have "P s'" using "1.prems"(2) [of i s s'] True "1.prems"(1) s'(1) by simp
    moreover have "P t'" if "i + 1 \<le> j" "j < hi" "P t" "body j t = Inr t'" for j t t'
      using "1.prems"(2) [of j t t'] that by simp
    ultimately show ?thesis using "1.IH" [OF True s'(1)] s'(2) by blast
  next
    case False
    then have "for_up body i hi s = Inr s" by (rule_tac for_up_empty) simp
    with "1.prems"(1,3) show ?thesis by simp
  qed
qed

lemma for_range_preserves:
  assumes "P s" and "\<And>x t t'. P t \<Longrightarrow> body x t = Inr t' \<Longrightarrow> P t'"
    and "for_range body xs s = Inr t"
  shows "P t"
  using assms
proof (induction xs arbitrary: s)
  case Nil
  then show ?case by simp
next
  case (Cons x xs)
  from Cons.prems(3) obtain s' where s': "body x s = Inr s'" "for_range body xs s' = Inr t"
    by (cases "body x s") simp_all
  have "P s'" using Cons.prems(1,2) s'(1) by blast
  then show ?case using Cons.IH [of s'] Cons.prems(2) s'(2) by blast
qed

lemma valid_write_bit:
  assumes v: "valid ba" and i: "0 \<le> i" "i < bsize ba"
  shows "valid (write_bit ba i b)"
proof -
  have "bits_are ba (\<lambda>k. if k = i then b else bitOf ba k) (write_bit ba i b)"
    using bits_are_refl valid_inStore [OF v i] by (rule bits_are_write)
  then show ?thesis
    using v
  proof (rule bits_are_valid)
    fix k assume "bsize ba \<le> k" "inStore ba k"
    then show "\<not> (if k = i then b else bitOf ba k)"
      using valid_padding [OF v, of k] i by auto
  qed
qed

lemma Set_valid: "valid ba \<Longrightarrow> Set ba i = Inr t \<Longrightarrow> valid t"
proof -
  assume v: "valid ba" and s: "Set ba i = Inr t"
  have i: "0 \<le> i" "i < bsize ba"
    using s by (auto simp: Set_def checkIdx_def split: if_splits)
  then have "Set ba i = Inr (write_bit ba i True)"
    using valid_inStore [OF v i] by (simp add: Set_def checkIdx_def set_idx_ok)
  with s have "t = write_bit ba i True" by simp
  then show ?thesis using valid_write_bit [OF v i] by simp
qed

lemma Unset_valid: "valid ba \<Longrightarrow> Unset ba i = Inr t \<Longrightarrow> valid t"
proof -
  assume v: "valid ba" and s: "Unset ba i = Inr t"
  have i: "0 \<le> i" "i < bsize ba"
    using s by (auto simp: Unset_def checkIdx_def split: if_splits)
  then have "Unset ba i = Inr (write_bit ba i False)"
    using valid_inStore [OF v i] by (simp add: Unset_def checkIdx_def unset_ok)
  with s have "t = write_bit ba i False" by simp
  then show ?thesis using valid_write_bit [OF v i] by simp
qed

lemma Clear_valid: "valid ba \<Longrightarrow> valid (Clear ba)"
  using bits_are_Clear by (rule bits_are_valid) simp_all

lemma Clone_valid: "valid ba \<Longrightarrow> valid (Clone ba)"
proof -
  have "Clone ba = ba" by (simp add: Clone_def)
  then show "valid ba \<Longrightarrow> valid (Clone ba)" by simp
qed

lemma New_valid:
  assumes "sz < 2 ^ 63" "New sz idx = Inr ba"
  shows "valid ba"
proof -
  have p: "0 < sz" using assms(2) by (auto simp: New_def split: if_splits)
  let ?z = "\<lparr>bsize = sz, data = replicate (nat ((sz + 7) div 8)) 0\<rparr>"
  have "New sz idx = for_range (\<lambda>i ba. Set ba i) idx ?z"
    using p ceil8 [of sz] by (simp add: New_def Let_def sdiv_nonneg smod_nonneg)
  then have "for_range (\<lambda>i ba. Set ba i) idx ?z = Inr ba" using assms(2) by simp
  moreover have "valid ?z" using p assms(1) by (rule valid_zeros)
  ultimately show ?thesis
    using Set_valid by (rule_tac for_range_preserves [where P = valid]) auto
qed

lemma Parse_valid:
  assumes len: "int (length s) < 2 ^ 63" and p: "Parse s = Inr ba"
  shows "valid ba"
proof -
  define rs where "rs = filter (\<lambda>c. c \<noteq> CHR '' '') s"
  define n where "n = int (length rs)"
  let ?z = "\<lparr>bsize = n, data = replicate (nat ((n + 7) div 8)) 0\<rparr>"
  let ?body = "\<lambda>i ba.
               if rs ! nat i = CHR ''1'' then set_idx ba (n - 1 - i)
               else if rs ! nat i \<noteq> CHR ''0''
                 then Inl (Error (''unknown character: '' @ [rs ! nat i]))
               else Inr ba"
  have P: "Parse s = andThen (New n []) (for_up ?body 0 n)"
    unfolding Parse_def rs_def n_def Let_def ..
  have n0: "0 < n"
  proof (rule ccontr)
    assume "\<not> 0 < n"
    then have "New n [] = Inl (Panic ''size must be > 0'')" by (simp add: New_nonpos)
    then show False using P p by simp
  qed
  have "length rs \<le> length s" by (simp add: rs_def)
  then have n1: "n < 2 ^ 63" using len unfolding n_def by linarith
  have l: "for_up ?body 0 n ?z = Inr ba"
    using P p New_empty [OF n0] by simp
  have vz: "valid ?z" using n0 n1 by (rule valid_zeros)
  have "valid ba \<and> bsize ba = n"
  proof (rule for_up_preserves [where P = "\<lambda>t. valid t \<and> bsize t = n", OF _ _ l])
    show "valid ?z \<and> bsize ?z = n" using vz by simp
  next
    fix j t t' assume j: "0 \<le> j" "j < n" and t: "valid t \<and> bsize t = n"
      and b: "?body j t = Inr t'"
    have i: "0 \<le> n - 1 - j" "n - 1 - j < bsize t" using j t by simp_all
    have "inStore t (n - 1 - j)" using t i by (intro valid_inStore) simp_all
    then have "t' = write_bit t (n - 1 - j) True \<or> t' = t"
      using b by (auto simp: set_idx_ok split: if_splits)
    then show "valid t' \<and> bsize t' = n"
      using t valid_write_bit [of t "n - 1 - j" True] i by auto
  qed
  then show ?thesis by simp
qed

section \<open>Parsing a string without digits\<close>

text \<open>
  Claim C9. For every input string that consists of space characters only (the empty
  string included), \<open>Parse\<close> does not return an error value: it calls \<open>New\<close> with size 0
  before it looks at any character, and \<open>New\<close> panics with "size must be > 0".
\<close>

theorem Parse_only_spaces:
  "set s \<subseteq> {CHR '' ''} \<Longrightarrow> Parse s = Inl (Panic ''size must be > 0'')"
proof -
  assume "set s \<subseteq> {CHR '' ''}"
  then have "filter (\<lambda>c. c \<noteq> CHR '' '') s = []"
    by (auto simp: filter_empty_conv)
  then show ?thesis
    by (simp add: Parse_def New_nonpos)
qed

theorem Parse_only_spaces_witness:
  "set ''   '' \<subseteq> {CHR '' ''} \<and> Parse ''   '' = Inl (Panic ''size must be > 0'')
   \<and> Parse [] = Inl (Panic ''size must be > 0'')"
  using Parse_only_spaces [of "''   ''"] Parse_only_spaces [of "[]"] by simp

section \<open>Slicing an empty or reversed range\<close>

text \<open>
  Claim C10. For every vector \<open>v\<close> and integers \<open>start\<close>, \<open>end\<close> with \<open>start\<close> and
  \<open>end - 1\<close> both in \<open>[0, size)\<close> but \<open>end \<le> start\<close>, \<open>Slice v start end\<close> does not fail
  with "index out of range": both index checks pass, and \<open>New\<close> panics with
  "size must be > 0" on the non-positive size \<open>end - start\<close>.
\<close>

theorem Slice_empty_range:
  assumes "0 \<le> start" "start < bsize v" "0 \<le> end - 1" "end - 1 < bsize v" "end \<le> start"
    and "bsize v < 2 ^ 63"
  shows "checkIdx v start = Inr () \<and> checkIdx v (wrap64 (end - 1)) = Inr ()
         \<and> Slice v start end = Inl (Panic ''size must be > 0'')"
proof -
  have "int64 (end - 1)" "int64 (end - start)"
    using assms by (simp_all add: int64_def)
  then have w: "wrap64 (end - 1) = end - 1" "wrap64 (end - start) = end - start"
    by (simp_all add: wrap64_id)
  have c: "checkIdx v start = Inr ()" "checkIdx v (end - 1) = Inr ()"
    using assms by (simp_all add: checkIdx_def)
  have "New (end - start) [] = Inl (Panic ''size must be > 0'')"
    using assms by (simp add: New_nonpos)
  with w c show ?thesis
    by (simp add: Slice_def)
qed

theorem Slice_empty_range_witness:
  "Slice \<lparr>bsize = 4, data = [5]\<rparr> 2 2 = Inl (Panic ''size must be > 0'')
   \<and> Slice \<lparr>bsize = 4, data = [5]\<rparr> 3 1 = Inl (Panic ''size must be > 0'')"
  using Slice_empty_range [of 2 "\<lparr>bsize = 4, data = [5]\<rparr>" 2]
    Slice_empty_range [of 3 "\<lparr>bsize = 4, data = [5]\<rparr>" 1]
  by simp

section \<open>Slice semantics\<close>

text \<open>
  Claim C7. For every valid vector \<open>v\<close> and Go integers \<open>start\<close>, \<open>end\<close>: \<open>Slice v start end\<close>
  panics with "index out of range" when \<open>start\<close> or \<open>end - 1\<close> lies outside \<open>[0, size)\<close>;
  when both are valid indices and \<open>start < end\<close>, it returns a vector of size
  \<open>end - start\<close> whose bit \<open>k\<close> equals bit \<open>start + k\<close> of \<open>v\<close>. The result is built in a
  vector that \<open>New\<close> allocates, and \<open>Slice\<close> only reads \<open>v\<close>.
\<close>

theorem Slice_semantics:
  assumes "valid v" "int64 start" "int64 end"
  shows "(start < 0 \<or> bsize v \<le> start \<or> end - 1 < 0 \<or> bsize v \<le> end - 1
            \<longrightarrow> Slice v start end = Inl (Panic ''index out of range''))
       \<and> (0 \<le> start \<and> start < bsize v \<and> 0 \<le> end - 1 \<and> end - 1 < bsize v \<and> start < end
            \<longrightarrow> (\<exists>r. Slice v start end = Inr r \<and> bsize r = end - start \<and> valid r
                  \<and> (\<forall>k. 0 \<le> k \<and> k < end - start
                        \<longrightarrow> Get r k = Inr (bitOf v (start + k))
                          \<and> Get v (start + k) = Inr (bitOf v (start + k)))))"
proof (intro conjI impI)
  assume "start < 0 \<or> bsize v \<le> start \<or> end - 1 < 0 \<or> bsize v \<le> end - 1"
  then show "Slice v start end = Inl (Panic ''index out of range'')"
    using assms by (intro Slice_panics) (simp_all add: valid_def)
next
  assume a: "0 \<le> start \<and> start < bsize v \<and> 0 \<le> end - 1 \<and> end - 1 < bsize v \<and> start < end"
  then obtain r where r: "Slice v start end = Inr r" "bsize r = end - start" "valid r"
      "\<And>k. 0 \<le> k \<and> k < end - start \<Longrightarrow> bitOf r k = bitOf v (start + k)"
    using Slice_ok [OF assms(1), of start "end"] by auto
  have "Get r k = Inr (bitOf v (start + k)) \<and> Get v (start + k) = Inr (bitOf v (start + k))"
    if "0 \<le> k \<and> k < end - start" for k
    using that r(2,3) r(4) [OF that] a assms(1) by (simp add: Get_ok)
  with r show "\<exists>r. Slice v start end = Inr r \<and> bsize r = end - start \<and> valid r
                  \<and> (\<forall>k. 0 \<le> k \<and> k < end - start
                        \<longrightarrow> Get r k = Inr (bitOf v (start + k))
                          \<and> Get v (start + k) = Inr (bitOf v (start + k)))"
    by blast
qed

theorem Slice_semantics_witness:
  "valid \<lparr>bsize = 10, data = [85, 1]\<rparr> \<and> int64 2 \<and> int64 7 \<and> int64 11
   \<and> (\<exists>r. Slice \<lparr>bsize = 10, data = [85, 1]\<rparr> 2 7 = Inr r \<and> bsize r = 5 \<and> valid r
          \<and> (\<forall>k. 0 \<le> k \<and> k < 5 \<longrightarrow> Get r k = Inr (bitOf \<lparr>bsize = 10, data = [85, 1]\<rparr> (2 + k))))
   \<and> Slice \<lparr>bsize = 10, data = [85, 1]\<rparr> 2 11 = Inl (Panic ''index out of range'')"
proof -
  have v: "valid \<lparr>bsize = 10, data = [85, 1]\<rparr>"
    by (simp add: valid_def padding_zero_def bitOf_def upto.simps)
  have i: "int64 2" "int64 7" "int64 11"
    by (simp_all add: int64_def)
  show ?thesis
    using v i Slice_semantics [OF v i(1) i(2)] Slice_semantics [OF v i(1) i(3)]
    by simp blast
qed

section \<open>Rotate semantics\<close>

text \<open>
  Claim C3. For every valid vector \<open>v\<close> of size \<open>s\<close> and every integer \<open>n\<close>, \<open>Rotate v n\<close>
  reduces \<open>n\<close> to \<open>r = n smod s\<close> (the truncated remainder) and returns the vector whose bit
  \<open>(i + r) mod s\<close> is the bit \<open>i\<close> of \<open>v\<close>, for every \<open>i\<close> in \<open>[0, s)\<close>; for \<open>r = 0\<close> it is
  \<open>v\<close> itself. No bit is lost: \<open>Count\<close> is unchanged.
\<close>

theorem Rotate_semantics:
  assumes v: "valid v"
  shows "\<exists>t. Rotate v n = Inr t \<and> valid t \<and> bsize t = bsize v
           \<and> (\<forall>i. 0 \<le> i \<and> i < bsize v
                 \<longrightarrow> Get v i = Inr (bitOf v i)
                   \<and> Get t ((i + n smod bsize v) mod bsize v) = Inr (bitOf v i))
           \<and> (n smod bsize v = 0 \<longrightarrow> t = v)
           \<and> Count t = Count v"
proof -
  define s where "s = bsize v"
  define r where "r = n smod s"
  define G where "G = (\<lambda>k. if 0 \<le> k \<and> k < s then bitOf v ((k - r) mod s) else bitOf v k)"
  have s: "0 < s" using v by (simp add: valid_def s_def)
  from Rotate_ok [OF v, of n] obtain t where t: "Rotate v n = Inr t" "bits_are v G t"
    unfolding G_def r_def s_def by blast
  have sz: "bsize t = s" using t(2) by (simp add: bits_are_def s_def)
  have vt: "valid t"
    using t(2) v
  proof (rule bits_are_valid)
    fix k assume "bsize v \<le> k" "inStore v k"
    then show "\<not> G k" using valid_padding [OF v] by (simp add: G_def s_def)
  qed
  have inv: "((i + r) mod s - r) mod s = i" if "0 \<le> i" "i < s" for i
  proof -
    have "((i + r) mod s - r) mod s = (i + r - r) mod s" by (rule mod_diff_left_eq)
    then show ?thesis using that by simp
  qed
  have inv': "((k - r) mod s + r) mod s = k" if "0 \<le> k" "k < s" for k
  proof -
    have "((k - r) mod s + r) mod s = (k - r + r) mod s" by (rule mod_add_left_eq)
    then show ?thesis using that by simp
  qed
  have rng: "0 \<le> x mod s \<and> x mod s < s" for x using s by simp
  have bits: "Get v i = Inr (bitOf v i) \<and> Get t ((i + r) mod s) = Inr (bitOf v i)"
    if i: "0 \<le> i \<and> i < s" for i
  proof -
    let ?k = "(i + r) mod s"
    have k: "0 \<le> ?k" "?k < s" using rng by simp_all
    have "inStore v ?k" using k by (intro valid_inStore [OF v]) (simp_all add: s_def)
    then have "bitOf t ?k = G ?k" by (rule bits_are_bitOf [OF t(2)])
    also have "\<dots> = bitOf v i" using k inv [of i] i by (simp add: G_def)
    finally have "Get t ?k = Inr (bitOf v i)"
      using Get_ok [OF vt, of ?k] k sz by simp
    moreover have "Get v i = Inr (bitOf v i)"
      using i by (intro Get_ok [OF v]) (simp_all add: s_def)
    ultimately show ?thesis by blast
  qed
  have same: "t = v" if "r = 0"
  proof -
    have "bits_are v G v"
      by (rule bits_are_cong [OF bits_are_refl]) (simp add: G_def that)
    with t(2) show ?thesis by (rule bits_are_unique)
  qed
  have St: "setBits t = {k. 0 \<le> k \<and> k < s \<and> bitOf v ((k - r) mod s)}"
  proof -
    have "setBits t = {k. inStore v k \<and> G k}" using t(2) by (rule setBits_bits_are)
    also have "\<dots> = {k. 0 \<le> k \<and> k < s \<and> bitOf v ((k - r) mod s)}"
    proof (rule set_eqI)
      fix k
      show "k \<in> {k. inStore v k \<and> G k} \<longleftrightarrow> k \<in> {k. 0 \<le> k \<and> k < s \<and> bitOf v ((k - r) mod s)}"
      proof (cases "0 \<le> k \<and> k < s")
        case True
        then have "inStore v k" by (intro valid_inStore [OF v]) (simp_all add: s_def)
        then show ?thesis using True by (simp add: G_def)
      next
        case False
        then have "inStore v k \<Longrightarrow> \<not> bitOf v k"
          using valid_padding [OF v, of k] by (auto simp: inStore_def s_def)
        then show ?thesis using False by (auto simp: G_def)
      qed
    qed
    finally show ?thesis .
  qed
  have Sv: "setBits v = {i. 0 \<le> i \<and> i < s \<and> bitOf v i}"
    using setBits_valid [OF v] by (simp add: s_def)
  have img: "(\<lambda>i. (i + r) mod s) ` setBits v = setBits t"
  proof (rule set_eqI)
    fix k
    show "k \<in> (\<lambda>i. (i + r) mod s) ` setBits v \<longleftrightarrow> k \<in> setBits t"
    proof
      assume "k \<in> (\<lambda>i. (i + r) mod s) ` setBits v"
      then obtain i where i: "k = (i + r) mod s" "0 \<le> i" "i < s" "bitOf v i"
        unfolding Sv by blast
      then show "k \<in> setBits t"
        unfolding St using rng [of "i + r"] inv [of i] by simp
    next
      assume "k \<in> setBits t"
      then have k: "0 \<le> k" "k < s" "bitOf v ((k - r) mod s)" unfolding St by simp_all
      have "(k - r) mod s \<in> setBits v"
        unfolding Sv using rng [of "k - r"] k(3) by simp
      then have "((k - r) mod s + r) mod s \<in> (\<lambda>i. (i + r) mod s) ` setBits v"
        by (rule imageI)
      then show "k \<in> (\<lambda>i. (i + r) mod s) ` setBits v"
        using inv' [OF k(1,2)] by simp
    qed
  qed
  have "inj_on (\<lambda>i. (i + r) mod s) (setBits v)"
  proof (rule inj_on_inverseI)
    fix i assume "i \<in> setBits v"
    then have "0 \<le> i" "i < s" unfolding Sv by simp_all
    then show "((i + r) mod s - r) mod s = i" by (rule inv)
  qed
  then have "card ((\<lambda>i. (i + r) mod s) ` setBits v) = card (setBits v)"
    by (rule card_image)
  then have cnt: "Count t = Count v"
    by (simp add: Count_card img)
  show ?thesis
    using t(1) vt sz bits same cnt unfolding r_def s_def by blast
qed

theorem Rotate_semantics_witness:
  "valid \<lparr>bsize = 10, data = [1, 1]\<rparr>
   \<and> (\<exists>t. Rotate \<lparr>bsize = 10, data = [1, 1]\<rparr> (- 12) = Inr t \<and> valid t \<and> bsize t = 10
          \<and> Get t ((0 + (- 12) smod 10) mod 10) = Inr (bitOf \<lparr>bsize = 10, data = [1, 1]\<rparr> 0)
          \<and> Count t = Count \<lparr>bsize = 10, data = [1, 1]\<rparr>)
   \<and> Rotate \<lparr>bsize = 10, data = [1, 1]\<rparr> (- 12) = Inr \<lparr>bsize = 10, data = [64, 1]\<rparr>"
proof -
  have e: "Rotate \<lparr>bsize = 10, data = [1, 1]\<rparr> (- 12) = Inr \<lparr>bsize = 10, data = [64, 1]\<rparr>"
    by code_simp
  have v: "valid \<lparr>bsize = 10, data = [1, 1]\<rparr>"
    by (simp add: valid_def padding_zero_def bitOf_def upto.simps)
  from Rotate_semantics [OF v, of "- 12"] obtain t
    where "Rotate \<lparr>bsize = 10, data = [1, 1]\<rparr> (- 12) = Inr t" "valid t"
      "bsize t = bsize \<lparr>bsize = 10, data = [1, 1]\<rparr>"
      "\<forall>i. 0 \<le> i \<and> i < bsize \<lparr>bsize = 10, data = [1, 1]\<rparr>
          \<longrightarrow> Get \<lparr>bsize = 10, data = [1, 1]\<rparr> i = Inr (bitOf \<lparr>bsize = 10, data = [1, 1]\<rparr> i)
            \<and> Get t ((i + (- 12) smod bsize \<lparr>bsize = 10, data = [1, 1]\<rparr>)
                      mod bsize \<lparr>bsize = 10, data = [1, 1]\<rparr>)
              = Inr (bitOf \<lparr>bsize = 10, data = [1, 1]\<rparr> i)"
      "Count t = Count \<lparr>bsize = 10, data = [1, 1]\<rparr>"
    by blast
  then show ?thesis using v e by auto
qed

section \<open>Shift semantics\<close>

text \<open>For every shift amount other than the least Go integer, \<open>Shift\<close> does what its
  documentation says: bit \<open>i\<close> of the result is bit \<open>i - n\<close> of the original where that
  position exists and 0 elsewhere, and \<open>Count\<close> does not grow.\<close>

lemma Shift_in_range:
  assumes v: "valid v" and n: "int64 n" "n \<noteq> - (2 ^ 63)"
  shows "\<exists>t. Shift v n = Inr t \<and> valid t \<and> bsize t = bsize v
           \<and> (\<forall>i. 0 \<le> i \<and> i < bsize v
                 \<longrightarrow> Get t i = Inr (0 \<le> i - n \<and> i - n < bsize v \<and> bitOf v (i - n)))
           \<and> Count t \<le> Count v"
proof -
  define F where "F = (\<lambda>k. 0 \<le> k \<and> k < bsize v \<and> 0 \<le> k - n \<and> k - n < bsize v \<and> bitOf v (k - n))"
  from Shift_ok [OF v n] obtain t where t: "Shift v n = Inr t" "bits_are v F t"
    unfolding F_def by blast
  have sz: "bsize t = bsize v" using t(2) by (simp add: bits_are_def)
  have vt: "valid t"
    using t(2) v by (rule bits_are_valid) (simp add: F_def)
  have bits: "Get t i = Inr (0 \<le> i - n \<and> i - n < bsize v \<and> bitOf v (i - n))"
    if i: "0 \<le> i \<and> i < bsize v" for i
  proof -
    have "inStore v i" using i by (intro valid_inStore [OF v]) simp_all
    then have "bitOf t i = F i" by (rule bits_are_bitOf [OF t(2)])
    then show ?thesis using Get_ok [OF vt, of i] i sz by (simp add: F_def)
  qed
  have "setBits t = {k. inStore v k \<and> F k}" using t(2) by (rule setBits_bits_are)
  also have "\<dots> \<subseteq> (\<lambda>j. j + n) ` setBits v"
  proof
    fix k assume "k \<in> {k. inStore v k \<and> F k}"
    then have k: "0 \<le> k - n" "k - n < bsize v" "bitOf v (k - n)" by (simp_all add: F_def)
    then have "k - n \<in> setBits v" unfolding setBits_valid [OF v] by simp
    then have "k - n + n \<in> (\<lambda>j. j + n) ` setBits v" by (rule imageI)
    then show "k \<in> (\<lambda>j. j + n) ` setBits v" by simp
  qed
  finally have "card (setBits t) \<le> card ((\<lambda>j. j + n) ` setBits v)"
    by (intro card_mono finite_imageI finite_setBits)
  also have "\<dots> \<le> card (setBits v)"
    by (intro card_image_le finite_setBits)
  finally have "Count t \<le> Count v" by (simp add: Count_card)
  with t(1) vt sz bits show ?thesis by blast
qed

text \<open>
  Claim C4. For every vector \<open>v\<close> of size \<open>s\<close> and every integer \<open>n\<close>, after \<open>Shift v n\<close> every
  bit is 0 if \<open>|n| \<ge> s\<close>; otherwise the bits have moved by \<open>n\<close> positions and the vacated
  positions are 0; \<open>Count\<close> does not grow. The code fails this at the least 64-bit integer:
  its negation wraps around to itself, the test \<open>-n >= size\<close> is false, \<open>moveBits\<close>
  returns a negative start index, and the clearing loop of \<open>Shift\<close> indexes the storage
  out of range. The vector "0001" shifted by \<open>-2^63\<close> is a runtime panic, not "0000".
\<close>

theorem Shift_min_int_panics:
  "valid \<lparr>bsize = 4, data = [1]\<rparr> \<and> int64 (- (2 ^ 63))
   \<and> bsize \<lparr>bsize = 4, data = [1]\<rparr> \<le> \<bar>- (2 ^ 63)\<bar>
   \<and> Shift \<lparr>bsize = 4, data = [1]\<rparr> (- (2 ^ 63)) = Inl RuntimePanic"
proof -
  have "valid \<lparr>bsize = 4, data = [1]\<rparr>"
    by (simp add: valid_def padding_zero_def bitOf_def upto.simps)
  moreover have "int64 (- (2 ^ 63))" by (simp add: int64_def)
  moreover have "Shift \<lparr>bsize = 4, data = [1]\<rparr> (- (2 ^ 63)) = Inl RuntimePanic"
    by (rule Shift_min_int) simp_all
  ultimately show ?thesis by simp
qed

section \<open>String round trip\<close>

text \<open>
  Claim C5. For every valid vector \<open>v\<close>, \<open>String v\<close> returns a text \<open>s\<close> of exactly \<open>size\<close>
  binary digits, the bit of the highest index first, and \<open>Parse s\<close> returns \<open>v\<close> itself.
  For every text \<open>u\<close> of digits and spaces with at least one digit, \<open>Parse u\<close> succeeds and
  bit 0 of the result is the rightmost character of \<open>u\<close> that is not a space.
\<close>

theorem String_round_trip:
  assumes v: "valid v"
    and u: "set u \<subseteq> {CHR ''0'', CHR ''1'', CHR '' ''}" "\<exists>c \<in> set u. c \<noteq> CHR '' ''"
      "int (length u) < 2 ^ 63"
  shows "(\<exists>s. String v = Inr s \<and> Parse s = Inr v \<and> int (length s) = bsize v
            \<and> (\<forall>k. 0 \<le> k \<and> k < bsize v
                  \<longrightarrow> s ! nat k = (if bitOf v (bsize v - 1 - k) then CHR ''1'' else CHR ''0'')))
       \<and> (\<exists>t. Parse u = Inr t \<and> valid t
            \<and> bsize t = int (length (filter (\<lambda>c. c \<noteq> CHR '' '') u))
            \<and> Get t 0 = Inr (last (filter (\<lambda>c. c \<noteq> CHR '' '') u) = CHR ''1''))"
proof (rule conjI)
  have s: "0 < bsize v" using v by (simp add: valid_def)
  have "String v = Inr (bitString v)" using v by (rule String_ok)
  moreover have "Parse (bitString v) = Inr v" using v by (rule Parse_bitString)
  moreover have "int (length (bitString v)) = bsize v" using s by simp
  moreover have "bitString v ! nat k = (if bitOf v (bsize v - 1 - k) then CHR ''1'' else CHR ''0'')"
    if "0 \<le> k \<and> k < bsize v" for k
    using nth_bitString [of "nat k" v] that by (simp add: digit_def)
  ultimately show "\<exists>s. String v = Inr s \<and> Parse s = Inr v \<and> int (length s) = bsize v
            \<and> (\<forall>k. 0 \<le> k \<and> k < bsize v
                  \<longrightarrow> s ! nat k = (if bitOf v (bsize v - 1 - k) then CHR ''1'' else CHR ''0''))"
    by blast
next
  define rs where "rs = filter (\<lambda>c. c \<noteq> CHR '' '') u"
  have ne: "rs \<noteq> []" using u(2) by (auto simp: rs_def filter_empty_conv)
  have dig: "set rs \<subseteq> {CHR ''0'', CHR ''1''}" using u(1) by (auto simp: rs_def)
  have "length rs \<le> length u" by (simp add: rs_def)
  then have len: "int (length rs) < 2 ^ 63" using u(3) by linarith
  from Parse_ok [OF rs_def ne dig len] obtain t
    where t: "Parse u = Inr t" "bsize t = int (length rs)" "valid t"
      "\<And>k. 0 \<le> k \<and> k < int (length rs)
         \<Longrightarrow> bitOf t k = (rs ! nat (int (length rs) - 1 - k) = CHR ''1'')"
    by blast
  have l: "0 < int (length rs)" using ne by simp
  have "nat (int (length rs) - 1 - 0) = length rs - 1" by simp
  then have "bitOf t 0 = (last rs = CHR ''1'')"
    using t(4) [of 0] l ne by (simp add: last_conv_nth)
  then have "Get t 0 = Inr (last rs = CHR ''1'')"
    using Get_ok [OF t(3), of 0] t(2) l by simp
  with t(1,2,3) show "\<exists>t. Parse u = Inr t \<and> valid t
            \<and> bsize t = int (length (filter (\<lambda>c. c \<noteq> CHR '' '') u))
            \<and> Get t 0 = Inr (last (filter (\<lambda>c. c \<noteq> CHR '' '') u) = CHR ''1'')"
    unfolding rs_def by blast
qed

theorem String_round_trip_witness:
  "valid \<lparr>bsize = 10, data = [129, 0]\<rparr>
   \<and> String \<lparr>bsize = 10, data = [129, 0]\<rparr> = Inr ''0010000001''
   \<and> Parse ''0010000001'' = Inr \<lparr>bsize = 10, data = [129, 0]\<rparr>
   \<and> (\<exists>t. Parse ''1 10'' = Inr t \<and> bsize t = 3 \<and> Get t 0 = Inr False)"
proof -
  have v: "valid \<lparr>bsize = 10, data = [129, 0]\<rparr>"
    by (simp add: valid_def padding_zero_def bitOf_def upto.simps)
  have u: "set ''1 10'' \<subseteq> {CHR ''0'', CHR ''1'', CHR '' ''}" "\<exists>c \<in> set ''1 10''. c \<noteq> CHR '' ''"
    "int (length ''1 10'') < 2 ^ 63"
    by simp_all
  have s: "String \<lparr>bsize = 10, data = [129, 0]\<rparr> = Inr ''0010000001''"
    by code_simp
  from String_round_trip [OF v u] s
  have "Parse ''0010000001'' = Inr \<lparr>bsize = 10, data = [129, 0]\<rparr>"
    "\<exists>t. Parse ''1 10'' = Inr t \<and> bsize t = 3 \<and> Get t 0 = Inr False"
    by auto
  with v s show ?thesis by blast
qed

section \<open>Concat semantics\<close>

lemma bitString_Concat:
  assumes sz: "bsize t = bsize a + bsize b" "0 < bsize a" "0 < bsize b"
    and low: "\<And>k. 0 \<le> k \<and> k < bsize b \<Longrightarrow> bitOf t k = bitOf b k"
    and high: "\<And>k. bsize b \<le> k \<and> k < bsize a + bsize b \<Longrightarrow> bitOf t k = bitOf a (k - bsize b)"
  shows "bitString t = bitString a @ bitString b"
proof (rule nth_equalityI)
  show l: "length (bitString t) = length (bitString a @ bitString b)"
    using sz by (simp add: nat_add_distrib)
  fix i assume "i < length (bitString t)"
  then have i: "int i < bsize a + bsize b" "i < nat (bsize t)" using sz by simp_all
  show "bitString t ! i = (bitString a @ bitString b) ! i"
  proof (cases "int i < bsize a")
    case True
    then have ia: "i < nat (bsize a)" by simp
    have e: "bsize t - 1 - int i - bsize b = bsize a - 1 - int i" using sz by simp
    have "bitOf t (bsize t - 1 - int i) = bitOf a (bsize t - 1 - int i - bsize b)"
      using True sz by (intro high) simp
    then have "bitString t ! i = digit (bitOf a (bsize a - 1 - int i))"
      using i(2) by (simp only: nth_bitString e)
    also have "\<dots> = bitString a ! i"
      using ia by (simp add: nth_bitString)
    finally show ?thesis using ia by (simp add: nth_append)
  next
    case False
    then have ia: "\<not> i < nat (bsize a)" using sz by simp
    define j where "j = i - nat (bsize a)"
    have j: "int j = int i - bsize a" "j < nat (bsize b)"
      using False i sz by (simp_all add: j_def)
    have e: "bsize t - 1 - int i = bsize b - 1 - int j" using sz j by simp
    have "bitOf t (bsize b - 1 - int j) = bitOf b (bsize b - 1 - int j)"
      using j by (intro low) simp
    then have "bitString t ! i = digit (bitOf b (bsize b - 1 - int j))"
      using i(2) by (simp only: nth_bitString e)
    also have "\<dots> = bitString b ! j"
      using j(2) by (simp add: nth_bitString)
    finally show ?thesis using ia by (simp add: nth_append j_def)
  qed
qed

text \<open>
  Claim C8. For every pair of valid vectors \<open>a\<close> and \<open>b\<close> (whose sizes add up to a Go
  integer, as the sizes of two vectors in memory do), \<open>Concat a b\<close> returns a vector of
  size \<open>a.size + b.size\<close> whose bit \<open>k\<close> is bit \<open>k\<close> of \<open>b\<close> for \<open>k\<close> in \<open>[0, b.size)\<close> and bit
  \<open>k - b.size\<close> of \<open>a\<close> for \<open>k\<close> in \<open>[b.size, a.size + b.size)\<close>; its text is the text of \<open>a\<close>
  followed by the text of \<open>b\<close>. \<open>Concat\<close> only reads its arguments and writes the
  vector that \<open>New\<close> allocates.
\<close>

theorem Concat_semantics:
  assumes va: "valid a" and vb: "valid b" and sum: "bsize a + bsize b < 2 ^ 63"
  shows "\<exists>t. Concat a b = Inr t \<and> bsize t = bsize a + bsize b \<and> valid t
           \<and> (\<forall>k. 0 \<le> k \<and> k < bsize b
                 \<longrightarrow> Get t k = Inr (bitOf b k) \<and> Get b k = Inr (bitOf b k))
           \<and> (\<forall>k. bsize b \<le> k \<and> k < bsize a + bsize b
                 \<longrightarrow> Get t k = Inr (bitOf a (k - bsize b))
                   \<and> Get a (k - bsize b) = Inr (bitOf a (k - bsize b)))
           \<and> (\<exists>sa sb. String a = Inr sa \<and> String b = Inr sb \<and> String t = Inr (sa @ sb))"
proof -
  from Concat_ok [OF va vb sum] obtain t
    where t: "Concat a b = Inr t" "bsize t = bsize a + bsize b" "valid t"
      "\<And>k. 0 \<le> k \<and> k < bsize b \<Longrightarrow> bitOf t k = bitOf b k"
      "\<And>k. bsize b \<le> k \<and> k < bsize a + bsize b \<Longrightarrow> bitOf t k = bitOf a (k - bsize b)"
    by blast
  have s: "0 < bsize a" "0 < bsize b" using va vb by (simp_all add: valid_def)
  have low: "Get t k = Inr (bitOf b k) \<and> Get b k = Inr (bitOf b k)"
    if "0 \<le> k \<and> k < bsize b" for k
    using that t(2) t(4) [OF that] s Get_ok [OF t(3), of k] Get_ok [OF vb, of k] by simp
  have high: "Get t k = Inr (bitOf a (k - bsize b))
      \<and> Get a (k - bsize b) = Inr (bitOf a (k - bsize b))"
    if "bsize b \<le> k \<and> k < bsize a + bsize b" for k
    using that t(2) t(5) [OF that] s Get_ok [OF t(3), of k] Get_ok [OF va, of "k - bsize b"]
    by simp
  have "bitString t = bitString a @ bitString b"
    using t(2) s t(4) t(5) by (rule bitString_Concat)
  then have "String t = Inr (bitString a @ bitString b)"
    using String_ok [OF t(3)] by simp
  then have str: "\<exists>sa sb. String a = Inr sa \<and> String b = Inr sb \<and> String t = Inr (sa @ sb)"
    using String_ok [OF va] String_ok [OF vb] by blast
  show ?thesis using t(1,2,3) low high str by blast
qed

theorem Concat_semantics_witness:
  "valid \<lparr>bsize = 4, data = [5]\<rparr> \<and> valid \<lparr>bsize = 3, data = [5]\<rparr>
   \<and> Concat \<lparr>bsize = 4, data = [5]\<rparr> \<lparr>bsize = 3, data = [5]\<rparr> = Inr \<lparr>bsize = 7, data = [45]\<rparr>
   \<and> (\<exists>t. Concat \<lparr>bsize = 4, data = [5]\<rparr> \<lparr>bsize = 3, data = [5]\<rparr> = Inr t
          \<and> bsize t = 7 \<and> valid t
          \<and> (\<exists>sa sb. String \<lparr>bsize = 4, data = [5]\<rparr> = Inr sa
                \<and> String \<lparr>bsize = 3, data = [5]\<rparr> = Inr sb \<and> String t = Inr (sa @ sb)))
   \<and> String \<lparr>bsize = 7, data = [45]\<rparr> = Inr ''0101101''"
proof -
  have va: "valid \<lparr>bsize = 4, data = [5]\<rparr>"
    by (simp add: valid_def padding_zero_def bitOf_def upto.simps)
  have vb: "valid \<lparr>bsize = 3, data = [5]\<rparr>"
    by (simp add: valid_def padding_zero_def bitOf_def upto.simps)
  have sum: "bsize \<lparr>bsize = 4, data = [5]\<rparr> + bsize \<lparr>bsize = 3, data = [5]\<rparr> < 2 ^ 63"
    by simp
  have c: "Concat \<lparr>bsize = 4, data = [5]\<rparr> \<lparr>bsize = 3, data = [5]\<rparr> = Inr \<lparr>bsize = 7, data = [45]\<rparr>"
    by code_simp
  have s: "String \<lparr>bsize = 7, data = [45]\<rparr> = Inr ''0101101''"
    by code_simp
  from Concat_semantics [OF va vb sum]
  have "\<exists>t. Concat \<lparr>bsize = 4, data = [5]\<rparr> \<lparr>bsize = 3, data = [5]\<rparr> = Inr t
          \<and> bsize t = 7 \<and> valid t
          \<and> (\<exists>sa sb. String \<lparr>bsize = 4, data = [5]\<rparr> = Inr sa
                \<and> String \<lparr>bsize = 3, data = [5]\<rparr> = Inr sb \<and> String t = Inr (sa @ sb))"
    by auto
  with va vb c s show ?thesis by blast
qed

section \<open>Bitwise algebra\<close>






end
